theory Spec2Isabelle
  imports Main
begin

section \<open>Filename and slug sanitisation\<close>

text \<open>
  A Python \<open>str\<close> is modelled as a \<open>string\<close>: one \<open>char\<close> per code point, for the
  code points 0 to 255. \<open>len\<close> is \<open>length\<close>, a slice \<open>s[:n]\<close> is \<open>take n s\<close>.
\<close>

definition is_digit :: "char \<Rightarrow> bool" where
  "is_digit c = (48 \<le> (of_char c :: nat) \<and> (of_char c :: nat) \<le> 57)"

definition is_alnum :: "char \<Rightarrow> bool" where
  \<comment> \<open>the character class \<open>a-zA-Z0-9\<close>\<close>
  "is_alnum c = (let n = (of_char c :: nat) in
     (97 \<le> n \<and> n \<le> 122) \<or> (65 \<le> n \<and> n \<le> 90) \<or> (48 \<le> n \<and> n \<le> 57))"

definition is_space :: "char \<Rightarrow> bool" where
  \<comment> \<open>\<open>\s\<close> of a \<open>str\<close> pattern, which is also what \<open>str.strip()\<close> removes: tab, line
      feed, vertical tab, form feed, carriage return, the separators 28 to 31, space,
      next line (133) and no-break space (160)\<close>
  "is_space c = (let n = (of_char c :: nat) in
     (9 \<le> n \<and> n \<le> 13) \<or> (28 \<le> n \<and> n \<le> 32) \<or> n = 133 \<or> n = 160)"

definition is_illegal :: "char \<Rightarrow> bool" where
  \<comment> \<open>the class of \<open>sanitize_filename\<close>: less-than, greater-than, colon, double quote,
      slash, backslash, bar, question mark, star\<close>
  "is_illegal c = ((of_char c :: nat) \<in> {60, 62, 58, 34, 47, 92, 124, 63, 42})"

definition sanitize_filename :: "string \<Rightarrow> string" where
  "sanitize_filename filename =
     (let filename1 = map (\<lambda>c. if is_illegal c then CHR ''_'' else c) filename
      in if length filename1 > 200 then take 200 filename1 else filename1)"

definition strip :: "string \<Rightarrow> string" where
  \<comment> \<open>\<open>str.strip()\<close> with no argument\<close>
  "strip s = rev (dropWhile is_space (rev (dropWhile is_space s)))"

fun sub_spaces :: "bool \<Rightarrow> string \<Rightarrow> string" where
  \<comment> \<open>\<open>re.sub(r'\s+', '_', s)\<close>: each maximal run of whitespace becomes one underscore;
      the flag says that the previous character belonged to a run\<close>
  "sub_spaces in_run [] = []"
| "sub_spaces in_run (c # cs) =
     (if is_space c then (if in_run then sub_spaces True cs else CHR ''_'' # sub_spaces True cs)
      else c # sub_spaces False cs)"

definition create_query_slug :: "string \<Rightarrow> string" where
  "create_query_slug query =
     (let slug = filter (\<lambda>c. is_alnum c \<or> is_space c \<or> c = CHR ''-'') query;
          slug1 = sub_spaces False (strip slug)
      in take 50 slug1)"

definition digit_char :: "nat \<Rightarrow> char" where
  "digit_char d = ''0123456789'' ! d"

fun decimal :: "nat \<Rightarrow> string" where
  \<comment> \<open>\<open>str(n)\<close> of a non-negative integer\<close>
  "decimal n = (if n < 10 then [digit_char n] else decimal (n div 10) @ [digit_char (n mod 10)])"

declare decimal.simps [simp del]

definition format_02d :: "nat \<Rightarrow> string" where
  \<comment> \<open>the format specification \<open>{index:02d}\<close>: decimal, padded with zeros to two digits\<close>
  "format_02d n = replicate (2 - length (decimal n)) (CHR ''0'') @ decimal n"

definition suggested_or_default :: "nat \<Rightarrow> string \<Rightarrow> string" where
  \<comment> \<open>\<open>download.suggested_filename or f"document_{index}.pdf"\<close>\<close>
  "suggested_or_default index suggested =
     (if suggested = [] then ''document_'' @ decimal index @ ''.pdf'' else suggested)"

definition final_filename :: "nat \<Rightarrow> string \<Rightarrow> string \<Rightarrow> string" where
  \<comment> \<open>lines 393 to 395 of \<open>download_pdf_from_result\<close>\<close>
  "final_filename index query_slug suggested =
     (let safe_filename = sanitize_filename (suggested_or_default index suggested)
      in format_02d index @ ''_'' @ query_slug @ ''__'' @ safe_filename)"

section \<open>The browser session\<close>

text \<open>
  The browser is the environment of the program. What a query sees of one execution
  context (the main document, a frame, a popup window) is a \<open>document\<close>: for each
  selector the program uses, the result of \<open>locator(sel).count()\<close> and of
  \<open>is_visible()\<close>, where \<open>None\<close> stands for a call that raises, and the time in
  milliseconds that a call on the selector takes in this context.
\<close>

datatype selector =
    InputTypePassword   \<comment> \<open>\<open>input[type="password"]\<close>\<close>
  | InputNamePassword   \<comment> \<open>\<open>input[name="password"]\<close>\<close>
  | ButtonSignIn        \<comment> \<open>\<open>button:has-text("Sign In")\<close>\<close>
  | ButtonLogin         \<comment> \<open>\<open>button:has-text("Login")\<close>\<close>
  | InputTypeEmail      \<comment> \<open>\<open>input[type="email"]\<close>\<close>
  | InputNameUsername   \<comment> \<open>\<open>input[name="username"]\<close>\<close>
  | InputNameEmail      \<comment> \<open>\<open>input[name="email"]\<close>\<close>
  | ButtonTypeSubmit    \<comment> \<open>\<open>button[type="submit"]\<close>\<close>
  | ButtonSubmit        \<comment> \<open>\<open>button:has-text("Submit")\<close>\<close>
  | RoleDownload        \<comment> \<open>\<open>get_by_role("button", name=re.compile(r"download", re.I)).first\<close>\<close>
  | RoleDownloadFree    \<comment> \<open>\<open>get_by_role("button", name=re.compile(r"download\s*\(free\)", re.IGNORECASE))\<close>\<close>

record document =
  count_of :: "selector \<Rightarrow> nat option"
  visible_of :: "selector \<Rightarrow> bool option"
  delay_of :: "selector \<Rightarrow> nat"

datatype row_text = TextRaises | NoText | Text string
  \<comment> \<open>\<open>row.text_content()\<close>: raises, returns \<open>None\<close>, or returns a string\<close>

record page_state =
  url :: string
  main_frame :: document
  frames :: "document list"       \<comment> \<open>\<open>page.frames\<close> without the main frame, in order\<close>
  popups :: "document list"       \<comment> \<open>\<open>page.context.pages[1:]\<close>\<close>
  rows :: "row_text list option"  \<comment> \<open>\<open>page.locator('tr:has(td)').all()\<close>; \<open>None\<close>: raises\<close>
  suggested_filename :: string    \<comment> \<open>of the download that the last download click produced\<close>

datatype ctx_ref = MainPage | FrameAt nat | PopupAt nat
  \<comment> \<open>the \<open>page_or_frame\<close> handed to \<open>_fill_login_form\<close>: the page itself, the frame or
      the popup at a position of the list it was taken from\<close>

datatype credential = Username | Password

text \<open>
  Every call that acts on the browser or waits is an event. The environment answers an
  event with a flag (\<open>False\<close>: the call raises) and the page as it is afterwards. The
  session carries the page, a clock in milliseconds and the events so far. The clock
  runs inside \<open>ensure_authenticated\<close>, the one place where the program sets a deadline:
  there every \<open>asyncio.sleep\<close> and every browser call advances it. Of the log lines
  only \<open>logger.info("Authentication successful")\<close> is recorded, as the mark of a
  completed login.
\<close>

datatype event =
    Launch                          \<comment> \<open>\<open>setup_browser\<close>: launch, new context, new page\<close>
  | Goto string                     \<comment> \<open>\<open>page.goto(url, wait_until='networkidle', timeout=30000)\<close>\<close>
  | WaitForTimeout nat              \<comment> \<open>\<open>page.wait_for_timeout(ms)\<close>\<close>
  | WaitForSelector                 \<comment> \<open>\<open>page.wait_for_selector('tr:has(td)', timeout=10000)\<close>\<close>
  | Sleep nat                       \<comment> \<open>\<open>asyncio.sleep\<close>, in milliseconds\<close>
  | ClickRow nat                    \<comment> \<open>\<open>row.click()\<close> on the row handle with this index\<close>
  | Fill ctx_ref selector credential
  | Click ctx_ref selector
  | DownloadClick                   \<comment> \<open>the click inside \<open>expect_download\<close>, up to \<open>download_info.value\<close>\<close>
  | SaveAs string                   \<comment> \<open>\<open>download.save_as(self.download_dir / final_filename)\<close>\<close>
  | StorageState                    \<comment> \<open>\<open>context.storage_state(path=STORAGE_STATE_PATH)\<close>\<close>
  | Close                           \<comment> \<open>\<open>browser.close()\<close>\<close>
  | LogAuthenticationSuccessful

type_synonym env = "event \<Rightarrow> page_state \<Rightarrow> bool \<times> page_state"

record session =
  page :: page_state
  clock :: nat
  trace :: "event list"

datatype error = TimeoutError | CancelledError | PlaywrightError

definition act :: "env \<Rightarrow> event \<Rightarrow> 'a session_scheme \<Rightarrow> bool \<times> 'a session_scheme" where
  "act env e s = (case env e (page s) of (ok, p) \<Rightarrow> (ok, s\<lparr>page := p, trace := trace s @ [e]\<rparr>))"

definition log_event :: "event \<Rightarrow> 'a session_scheme \<Rightarrow> 'a session_scheme" where
  "log_event e s = s\<lparr>trace := trace s @ [e]\<rparr>"

section \<open>Waiting under the deadline of \<open>asyncio.wait_for\<close>\<close>

text \<open>
  \<open>asyncio.wait_for(coro, timeout)\<close> with a positive timeout lets the coroutine run and,
  when the timeout has passed, cancels it once: a \<open>CancelledError\<close> is raised in the
  \<open>await\<close> that is pending at that moment. Where nothing catches it, the coroutine ends
  and \<open>wait_for\<close> raises \<open>asyncio.TimeoutError\<close>. Where a bare \<open>except:\<close> catches it,
  the coroutine runs on, with no deadline any more, and \<open>wait_for\<close> hands on what the
  coroutine returns or raises in the end. Inside \<open>wait_for\<close> the session therefore has one
  more field: the deadline, for as long as the cancellation has not been sent.
\<close>

record waiting = session +
  armed :: "nat option"

definition under_deadline :: "nat \<Rightarrow> session \<Rightarrow> waiting" where
  "under_deadline deadline s =
     \<lparr>page = page s, clock = clock s, trace = trace s, armed = Some deadline\<rparr>"

definition session_of :: "waiting \<Rightarrow> session" where
  "session_of w = \<lparr>page = page w, clock = clock w, trace = trace w\<rparr>"

definition browser_call :: "nat \<Rightarrow> waiting \<Rightarrow> bool \<times> waiting" where
  \<comment> \<open>an \<open>await\<close> of a browser call that takes \<open>delay\<close>: \<open>False\<close> when the cancellation
      lands in it, which then happens at the deadline\<close>
  "browser_call delay w =
     (case armed w of
        None \<Rightarrow> (True, w\<lparr>clock := clock w + delay\<rparr>)
      | Some deadline \<Rightarrow>
          if deadline \<le> clock w + delay then (False, w\<lparr>clock := deadline, armed := None\<rparr>)
          else (True, w\<lparr>clock := clock w + delay\<rparr>))"

definition sleep :: "env \<Rightarrow> nat \<Rightarrow> waiting \<Rightarrow> bool \<times> waiting" where
  \<comment> \<open>\<open>await asyncio.sleep(d)\<close>: \<open>False\<close> when the cancellation lands in the sleep, which
      then ends at the deadline; no \<open>try\<close> of \<open>_auth_loop\<close> encloses a sleep\<close>
  "sleep env d w =
     (case armed w of
        None \<Rightarrow> (True, (snd (act env (Sleep d) w))\<lparr>clock := clock w + d\<rparr>)
      | Some deadline \<Rightarrow>
          if deadline \<le> clock w + d
          then (False, (snd (act env (Sleep (deadline - clock w)) w))\<lparr>clock := deadline, armed := None\<rparr>)
          else (True, (snd (act env (Sleep d) w))\<lparr>clock := clock w + d\<rparr>))"

definition visible_query :: "document \<Rightarrow> selector \<Rightarrow> waiting \<Rightarrow> bool option \<times> waiting" where
  \<comment> \<open>\<open>await x.is_visible()\<close>; every such call of the engine is inside a bare \<open>except:\<close>,
      which treats a cancellation like any other exception: \<open>None\<close>\<close>
  "visible_query d sel w =
     (case browser_call (delay_of d sel) w of
        (False, w1) \<Rightarrow> (None, w1)
      | (True, w1) \<Rightarrow> (visible_of d sel, w1))"

definition count_query :: "document \<Rightarrow> selector \<Rightarrow> waiting \<Rightarrow> (error + nat) \<times> waiting" where
  \<comment> \<open>\<open>await x.locator(sel).count()\<close>\<close>
  "count_query d sel w =
     (case browser_call (delay_of d sel) w of
        (False, w1) \<Rightarrow> (Inl CancelledError, w1)
      | (True, w1) \<Rightarrow>
          (case count_of d sel of
             None \<Rightarrow> (Inl PlaywrightError, w1)
           | Some n \<Rightarrow> (Inr n, w1)))"

definition guarded_act :: "env \<Rightarrow> event \<Rightarrow> nat \<Rightarrow> waiting \<Rightarrow> bool \<times> waiting" where
  \<comment> \<open>\<open>await x.fill(...)\<close> or \<open>await x.click()\<close> inside a bare \<open>except:\<close>; a call in which the
      cancellation lands has been sent to the browser and counts as one that raises\<close>
  "guarded_act env e delay w =
     (case browser_call delay w of
        (False, w1) \<Rightarrow> (False, snd (act env e w1))
      | (True, w1) \<Rightarrow> act env e w1)"

section \<open>The authentication engine\<close>

subsection \<open>What the checks answer on a page\<close>

text \<open>
  The answers of \<open>_is_authenticated\<close> and of the selector loop of \<open>_has_login_forms\<close> on a
  page, when no cancellation lands in their queries.
\<close>

fun frames_authenticated :: "document list \<Rightarrow> bool" where
  \<comment> \<open>lines 126 to 134: the loop over the frames; a frame whose query raises is skipped\<close>
  "frames_authenticated [] = False"
| "frames_authenticated (frame # rest) =
     (case visible_of frame RoleDownload of
        Some True \<Rightarrow> True
      | _ \<Rightarrow> frames_authenticated rest)"

definition is_authenticated :: "page_state \<Rightarrow> bool" where
  "is_authenticated p =
     (case visible_of (main_frame p) RoleDownload of
        None \<Rightarrow> False
      | Some True \<Rightarrow> True
      | Some False \<Rightarrow> frames_authenticated (frames p))"

definition login_selectors :: "selector list" where
  "login_selectors = [InputTypePassword, InputNamePassword, ButtonSignIn, ButtonLogin]"

fun any_count :: "document \<Rightarrow> selector list \<Rightarrow> error + bool" where
  \<comment> \<open>\<open>for selector in login_selectors: if await x.locator(selector).count() > 0: return True\<close>\<close>
  "any_count d [] = Inr False"
| "any_count d (sel # rest) =
     (case count_of d sel of
        None \<Rightarrow> Inl PlaywrightError
      | Some n \<Rightarrow> if n > 0 then Inr True else any_count d rest)"

subsection \<open>The checks as the loop awaits them\<close>

fun await_frames_authenticated :: "document list \<Rightarrow> waiting \<Rightarrow> bool \<times> waiting" where
  \<comment> \<open>lines 126 to 134: a frame whose query raises or is cancelled is skipped\<close>
  "await_frames_authenticated [] w = (False, w)"
| "await_frames_authenticated (frame # rest) w =
     (case visible_query frame RoleDownload w of
        (Some True, w1) \<Rightarrow> (True, w1)
      | (_, w1) \<Rightarrow> await_frames_authenticated rest w1)"

definition await_is_authenticated :: "waiting \<Rightarrow> bool \<times> waiting" where
  \<comment> \<open>\<open>_is_authenticated\<close>: the outer bare \<open>except:\<close> answers \<open>False\<close> when the query of the
      main page raises or is cancelled\<close>
  "await_is_authenticated w =
     (case visible_query (main_frame (page w)) RoleDownload w of
        (None, w1) \<Rightarrow> (False, w1)
      | (Some True, w1) \<Rightarrow> (True, w1)
      | (Some False, w1) \<Rightarrow> await_frames_authenticated (frames (page w1)) w1)"

fun await_any_count :: "document \<Rightarrow> selector list \<Rightarrow> waiting \<Rightarrow> (error + bool) \<times> waiting" where
  \<comment> \<open>\<open>for selector in login_selectors: if await x.locator(selector).count() > 0: return True\<close>\<close>
  "await_any_count d [] w = (Inr False, w)"
| "await_any_count d (sel # rest) w =
     (case count_query d sel w of
        (Inl e, w1) \<Rightarrow> (Inl e, w1)
      | (Inr n, w1) \<Rightarrow> if n > 0 then (Inr True, w1) else await_any_count d rest w1)"

fun await_frames_have_login :: "document list \<Rightarrow> waiting \<Rightarrow> bool \<times> waiting" where
  \<comment> \<open>lines 155 to 163: a frame whose query raises or is cancelled is skipped\<close>
  "await_frames_have_login [] w = (False, w)"
| "await_frames_have_login (frame # rest) w =
     (case await_any_count frame login_selectors w of
        (Inr True, w1) \<Rightarrow> (True, w1)
      | (_, w1) \<Rightarrow> await_frames_have_login rest w1)"

definition await_has_login_forms :: "waiting \<Rightarrow> (error + bool) \<times> waiting" where
  \<comment> \<open>\<open>_has_login_forms\<close>: the check of the main page is not inside a \<open>try\<close>, so that an
      exception or a cancellation there leaves the function\<close>
  "await_has_login_forms w =
     (case await_any_count (main_frame (page w)) login_selectors w of
        (Inl e, w1) \<Rightarrow> (Inl e, w1)
      | (Inr True, w1) \<Rightarrow> (Inr True, w1)
      | (Inr False, w1) \<Rightarrow>
          (case await_frames_have_login (frames (page w1)) w1 of
             (found, w2) \<Rightarrow> (Inr found, w2)))"

subsection \<open>Filling the login form\<close>

definition context_of :: "page_state \<Rightarrow> ctx_ref \<Rightarrow> document option" where
  "context_of p c =
     (case c of
        MainPage \<Rightarrow> Some (main_frame p)
      | FrameAt i \<Rightarrow> (if i < length (frames p) then Some (frames p ! i) else None)
      | PopupAt i \<Rightarrow> (if i < length (popups p) then Some (popups p ! i) else None))"

definition is_visible :: "ctx_ref \<Rightarrow> selector \<Rightarrow> waiting \<Rightarrow> bool option \<times> waiting" where
  \<comment> \<open>\<open>await page_or_frame.locator(sel).is_visible()\<close>; a context that is gone raises\<close>
  "is_visible c sel w =
     (case context_of (page w) c of
        None \<Rightarrow> (None, w)
      | Some d \<Rightarrow> visible_query d sel w)"

definition delay_in :: "page_state \<Rightarrow> ctx_ref \<Rightarrow> selector \<Rightarrow> nat" where
  "delay_in p c sel = (case context_of p c of None \<Rightarrow> 0 | Some d \<Rightarrow> delay_of d sel)"

fun fill_first :: "env \<Rightarrow> ctx_ref \<Rightarrow> credential \<Rightarrow> selector list \<Rightarrow> waiting \<Rightarrow> waiting" where
  \<comment> \<open>lines 246 to 254 and 258 to 266: fill the first visible input, then \<open>break\<close>; a
      selector whose \<open>is_visible\<close> or \<open>fill\<close> raises or is cancelled is passed over\<close>
  "fill_first env c v [] w = w"
| "fill_first env c v (sel # rest) w =
     (case is_visible c sel w of
        (Some True, w1) \<Rightarrow>
          (case guarded_act env (Fill c sel v) (delay_in (page w1) c sel) w1 of
             (True, w2) \<Rightarrow> w2
           | (False, w2) \<Rightarrow> fill_first env c v rest w2)
      | (_, w1) \<Rightarrow> fill_first env c v rest w1)"

fun click_first :: "env \<Rightarrow> ctx_ref \<Rightarrow> selector list \<Rightarrow> waiting \<Rightarrow> waiting" where
  \<comment> \<open>lines 276 to 284\<close>
  "click_first env c [] w = w"
| "click_first env c (sel # rest) w =
     (case is_visible c sel w of
        (Some True, w1) \<Rightarrow>
          (case guarded_act env (Click c sel) (delay_in (page w1) c sel) w1 of
             (True, w2) \<Rightarrow> w2
           | (False, w2) \<Rightarrow> click_first env c rest w2)
      | (_, w1) \<Rightarrow> click_first env c rest w1)"

definition username_selectors :: "selector list" where
  "username_selectors = [InputTypeEmail, InputNameUsername, InputNameEmail]"

definition password_selectors :: "selector list" where
  "password_selectors = [InputTypePassword, InputNamePassword]"

definition submit_selectors :: "selector list" where
  "submit_selectors = [ButtonTypeSubmit, ButtonSignIn, ButtonLogin, ButtonSubmit]"

definition fill_login_form :: "env \<Rightarrow> ctx_ref \<Rightarrow> waiting \<Rightarrow> waiting" where
  "fill_login_form env page_or_frame w =
     (let w1 = fill_first env page_or_frame Username username_selectors w;
          w2 = fill_first env page_or_frame Password password_selectors w1
      in click_first env page_or_frame submit_selectors w2)"

fun login_in_contexts ::
  "env \<Rightarrow> (nat \<Rightarrow> ctx_ref) \<Rightarrow> nat \<Rightarrow> document list \<Rightarrow> waiting \<Rightarrow> bool \<times> waiting" where
  \<comment> \<open>lines 176 to 185 (frames) and 190 to 197 (popups): the first context with a password
      input gets the credentials; a context whose query raises or is cancelled is
      skipped; \<open>i\<close> is the position of the list's head\<close>
  "login_in_contexts env mk i [] w = (False, w)"
| "login_in_contexts env mk i (d # rest) w =
     (case count_query d InputTypePassword w of
        (Inr n, w1) \<Rightarrow>
          if n > 0 then (True, fill_login_form env (mk i) w1)
          else login_in_contexts env mk (Suc i) rest w1
      | (Inl e, w1) \<Rightarrow> login_in_contexts env mk (Suc i) rest w1)"

definition handle_login :: "env \<Rightarrow> waiting \<Rightarrow> (error + bool) \<times> waiting" where
  "handle_login env w =
     (case await_has_login_forms w of
        (Inl e, w1) \<Rightarrow> (Inl e, w1)
      | (Inr True, w1) \<Rightarrow> (Inr True, fill_login_form env MainPage w1)
      | (Inr False, w1) \<Rightarrow>
          (case login_in_contexts env FrameAt 0 (frames (page w1)) w1 of
             (True, w2) \<Rightarrow> (Inr True, w2)
           | (False, w2) \<Rightarrow>
               (case login_in_contexts env PopupAt 0 (popups (page w2)) w2 of
                  (found, w3) \<Rightarrow> (Inr found, w3))))"

subsection \<open>The loop and its deadline\<close>

definition login_attempt :: "env \<Rightarrow> waiting \<Rightarrow> (error + bool) \<times> waiting" where
  \<comment> \<open>lines 225 to 232 of \<open>_auth_loop\<close>: \<open>Inr True\<close> is \<open>return True\<close>, \<open>Inr False\<close> goes
      on to the wait of line 235\<close>
  "login_attempt env w =
     (case await_has_login_forms w of
        (Inl e, w1) \<Rightarrow> (Inl e, w1)
      | (Inr False, w1) \<Rightarrow> (Inr False, w1)
      | (Inr True, w1) \<Rightarrow>
          (case handle_login env w1 of
             (Inl e, w2) \<Rightarrow> (Inl e, w2)
           | (Inr False, w2) \<Rightarrow> (Inr False, w2)
           | (Inr True, w2) \<Rightarrow>
               (case sleep env 3000 w2 of
                  (False, w3) \<Rightarrow> (Inl CancelledError, w3)
                | (True, w3) \<Rightarrow>
                    (case await_is_authenticated w3 of
                       (True, w4) \<Rightarrow> (Inr True, log_event LogAuthenticationSuccessful w4)
                     | (False, w4) \<Rightarrow> (Inr False, w4)))))"

fun auth_loop :: "env \<Rightarrow> nat \<Rightarrow> waiting \<Rightarrow> (error + bool) \<times> waiting" where
  \<comment> \<open>\<open>for attempt in range(6)\<close>, counted down; after the last attempt the loop raises
      \<open>asyncio.TimeoutError\<close> itself\<close>
  "auth_loop env 0 w = (Inl TimeoutError, w)"
| "auth_loop env (Suc attempts) w =
     (case await_is_authenticated w of
        (True, w1) \<Rightarrow> (Inr False, w1)
      | (False, w1) \<Rightarrow>
          (case login_attempt env w1 of
             (Inl e, w2) \<Rightarrow> (Inl e, w2)
           | (Inr True, w2) \<Rightarrow> (Inr True, w2)
           | (Inr False, w2) \<Rightarrow>
               (case sleep env 2000 w2 of
                  (False, w3) \<Rightarrow> (Inl CancelledError, w3)
                | (True, w3) \<Rightarrow> auth_loop env attempts w3)))"

definition ensure_authenticated ::
  "env \<Rightarrow> nat \<Rightarrow> session \<Rightarrow> (error + bool \<times> bool) \<times> session" where
  \<comment> \<open>\<open>timeout\<close> in milliseconds. With a timeout that is not positive \<open>wait_for\<close> cancels
      the loop before its first step. A cancellation that leaves the loop becomes
      \<open>asyncio.TimeoutError\<close>, the one exception that is caught here\<close>
  "ensure_authenticated env timeout s =
     (if timeout = 0 then (Inr (False, False), s)
      else
        (case auth_loop env 6 (under_deadline (clock s + timeout) s) of
           (Inr login_performed, w) \<Rightarrow> (Inr (True, login_performed), session_of w)
         | (Inl TimeoutError, w) \<Rightarrow> (Inr (False, False), session_of w)
         | (Inl CancelledError, w) \<Rightarrow> (Inr (False, False), session_of w)
         | (Inl PlaywrightError, w) \<Rightarrow> (Inl PlaywrightError, session_of w)))"

section \<open>Search and result enumeration\<close>

definition base_url :: string where
  "base_url = ''https://boulder.co.publicsearch.us''"

definition is_quote :: "char \<Rightarrow> bool" where
  "is_quote c = ((of_char c :: nat) = 34 \<or> (of_char c :: nat) = 39)"

definition strip_quotes :: "string \<Rightarrow> string" where
  \<comment> \<open>\<open>query.strip('"\'')\<close>\<close>
  "strip_quotes s = rev (dropWhile is_quote (rev (dropWhile is_quote s)))"

definition perform_search :: "env \<Rightarrow> (string \<Rightarrow> string) \<Rightarrow> string \<Rightarrow> session \<Rightarrow> bool \<times> session" where
  \<comment> \<open>\<open>quote\<close> is \<open>urllib.parse.quote\<close>, a parameter of the model\<close>
  "perform_search env quote query s =
     (let clean_query = strip_quotes query;
          encoded_query = quote clean_query;
          results_url = base_url
            @ ''/results?department=RP&keywordSearch=false&recordedDateRange=18600626%2C20251023''
            @ ''&searchOcrText=true&searchType=quickSearch&searchValue='' @ encoded_query
      in case act env (Goto results_url) s of
           (False, s1) \<Rightarrow> (False, s1)
         | (True, s1) \<Rightarrow> act env (WaitForTimeout 3000) s1)"

record result =
  result_index :: nat     \<comment> \<open>\<open>result['index']\<close>; the row handle \<open>result['row_element']\<close> is
                              the row with this index\<close>
  result_text :: string   \<comment> \<open>\<open>result['text']\<close>\<close>

fun collect_results :: "nat \<Rightarrow> row_text list \<Rightarrow> result list" where
  \<comment> \<open>lines 315 to 325: \<open>for i, row in enumerate(result_rows, 1)\<close>\<close>
  "collect_results i [] = []"
| "collect_results i (row # rest) =
     (case row of
        Text t \<Rightarrow>
          if t \<noteq> [] \<and> length (strip t) > 10
          then \<lparr>result_index = i, result_text = strip t\<rparr> # collect_results (Suc i) rest
          else collect_results (Suc i) rest
      | _ \<Rightarrow> collect_results (Suc i) rest)"

definition get_search_results :: "env \<Rightarrow> session \<Rightarrow> result list \<times> session" where
  "get_search_results env s =
     (case act env WaitForSelector s of
        (False, s1) \<Rightarrow> ([], s1)
      | (True, s1) \<Rightarrow>
          (case rows (page s1) of
             None \<Rightarrow> ([], s1)
           | Some result_rows \<Rightarrow> (collect_results 1 result_rows, s1)))"

section \<open>The download orchestrator\<close>

fun contains :: "string \<Rightarrow> string \<Rightarrow> bool" where
  \<comment> \<open>\<open>sub in s\<close> on strings\<close>
  "contains sub [] = (sub = [])"
| "contains sub (c # cs) = (take (length sub) (c # cs) = sub \<or> contains sub cs)"

definition capture_download ::
  "env \<Rightarrow> nat \<Rightarrow> string \<Rightarrow> string \<Rightarrow> session \<Rightarrow> string option \<times> session" where
  \<comment> \<open>lines 378 to 412: from the search for the download button to the return; any
      exception ends in the handler of line 414, which returns \<open>None\<close>\<close>
  "capture_download env index query_slug results_url s =
     (case visible_of (main_frame (page s)) RoleDownloadFree of
        None \<Rightarrow> (None, s)
      | Some False \<Rightarrow> (None, s)
      | Some True \<Rightarrow>
          (case act env DownloadClick s of
             (False, s1) \<Rightarrow> (None, s1)
           | (True, s1) \<Rightarrow>
               (let name = final_filename index query_slug (suggested_filename (page s1))
                in case act env (SaveAs name) s1 of
                     (False, s2) \<Rightarrow> (None, s2)
                   | (True, s2) \<Rightarrow>
                       (case act env (Goto results_url) s2 of
                          (False, s3) \<Rightarrow> (None, s3)
                        | (True, s3) \<Rightarrow>
                            (case act env (WaitForTimeout 2000) s3 of
                               (False, s4) \<Rightarrow> (None, s4)
                             | (True, s4) \<Rightarrow> (Some name, s4))))))"

definition reach_download :: "env \<Rightarrow> result \<Rightarrow> session \<Rightarrow> bool \<times> session" where
  \<comment> \<open>lines 341 to 376: open the detail view of the result and authenticate; \<open>False\<close>
      stands for \<open>return None\<close>, also from the handler of line 414\<close>
  "reach_download env result s =
     (case act env (ClickRow (result_index result)) s of
        (False, s1) \<Rightarrow> (False, s1)
      | (True, s1) \<Rightarrow>
          (case act env (WaitForTimeout 3000) s1 of
             (False, s2) \<Rightarrow> (False, s2)
           | (True, s2) \<Rightarrow>
               if \<not> contains ''/doc/'' (url (page s2)) then (False, s2)
               else
                 (case ensure_authenticated env 30000 s2 of
                    (Inl e, s3) \<Rightarrow> (False, s3)
                  | (Inr (False, just_logged_in), s3) \<Rightarrow> (False, s3)
                  | (Inr (True, just_logged_in), s3) \<Rightarrow>
                      (True, if just_logged_in then snd (act env StorageState s3) else s3))))"

definition download_pdf_from_result ::
  "env \<Rightarrow> result \<Rightarrow> string \<Rightarrow> string \<Rightarrow> session \<Rightarrow> string option \<times> session" where
  "download_pdf_from_result env result query_slug results_url s =
     (case reach_download env result s of
        (False, s1) \<Rightarrow> (None, s1)
      | (True, s1) \<Rightarrow> capture_download env (result_index result) query_slug results_url s1)"

definition py_take :: "int \<Rightarrow> 'a list \<Rightarrow> 'a list" where
  \<comment> \<open>the slice \<open>xs[:l]\<close>; a negative \<open>l\<close> counts from the end\<close>
  "py_take l xs = (if 0 \<le> l then take (nat l) xs else take (nat (int (length xs) + l)) xs)"

definition apply_limit :: "int option \<Rightarrow> 'a list \<Rightarrow> 'a list" where
  \<comment> \<open>lines 457 to 459: \<open>if self.limit and self.limit < total_results\<close>; \<open>None\<close> and \<open>0\<close>
      are both false\<close>
  "apply_limit limit results =
     (case limit of
        None \<Rightarrow> results
      | Some l \<Rightarrow> if l \<noteq> 0 \<and> l < int (length results) then py_take l results else results)"

definition recover :: "env \<Rightarrow> string \<Rightarrow> session \<Rightarrow> session" where
  \<comment> \<open>lines 487 to 491\<close>
  "recover env results_url s =
     (case act env (Goto results_url) s of
        (False, s1) \<Rightarrow> s1
      | (True, s1) \<Rightarrow> snd (act env (WaitForTimeout 2000) s1))"

record run_result =
  count :: nat
  files :: "string list"

fun process_results ::
  "env \<Rightarrow> string \<Rightarrow> string \<Rightarrow> result list \<Rightarrow> run_result \<Rightarrow> session \<Rightarrow> run_result \<times> session" where
  \<comment> \<open>lines 465 to 492; the accumulator holds \<open>successful_downloads\<close> and
      \<open>downloaded_files\<close>\<close>
  "process_results env query_slug results_url [] acc s = (acc, s)"
| "process_results env query_slug results_url (result # rest) acc s =
     (case download_pdf_from_result env result query_slug results_url s of
        (downloaded_filename, s1) \<Rightarrow>
          (let acc1 = (case downloaded_filename of
                         None \<Rightarrow> acc
                       | Some name \<Rightarrow>
                           if name \<noteq> [] then \<lparr>count = count acc + 1, files = files acc @ [name]\<rparr>
                           else acc)
           in case act env (WaitForTimeout 1000) s1 of
                (True, s2) \<Rightarrow> process_results env query_slug results_url rest acc1 s2
              | (False, s2) \<Rightarrow>
                  process_results env query_slug results_url rest acc1 (recover env results_url s2)))"

definition search_and_download ::
  "env \<Rightarrow> (string \<Rightarrow> string) \<Rightarrow> int option \<Rightarrow> string \<Rightarrow> session \<Rightarrow> run_result \<times> session" where
  \<comment> \<open>lines 437 to 509: the body of the \<open>try\<close> after \<open>setup_browser\<close>\<close>
  "search_and_download env quote limit query s =
     (case perform_search env quote query s of
        (False, s1) \<Rightarrow> (\<lparr>count = 0, files = []\<rparr>, s1)
      | (True, s1) \<Rightarrow>
          (let results_url = url (page s1)
           in case get_search_results env s1 of
                (results, s2) \<Rightarrow>
                  if results = [] then (\<lparr>count = 0, files = []\<rparr>, s2)
                  else
                    (case process_results env (create_query_slug query) results_url
                            (apply_limit limit results) \<lparr>count = 0, files = []\<rparr> s2 of
                       (acc, s3) \<Rightarrow> (acc, snd (act env StorageState s3)))))"

definition download_all_pdfs ::
  "env \<Rightarrow> (string \<Rightarrow> string) \<Rightarrow> int option \<Rightarrow> string \<Rightarrow> session \<Rightarrow> (error + run_result) \<times> session" where
  \<comment> \<open>\<open>limit\<close> is \<open>self.limit\<close>. When \<open>setup_browser\<close> raises, \<open>browser\<close> is still \<open>None\<close>
      and nothing is closed; otherwise \<open>finally\<close> closes the browser, and an exception
      of \<open>browser.close()\<close> leaves the function\<close>
  "download_all_pdfs env quote limit query s =
     (case act env Launch s of
        (False, s1) \<Rightarrow> (Inr \<lparr>count = 0, files = []\<rparr>, s1)
      | (True, s1) \<Rightarrow>
          (case search_and_download env quote limit query s1 of
             (r, s2) \<Rightarrow>
               (case act env Close s2 of
                  (True, s3) \<Rightarrow> (Inr r, s3)
                | (False, s3) \<Rightarrow> (Inl PlaywrightError, s3))))"

section \<open>Notions of the specification\<close>

text \<open>
  The pattern that the specification gives for stored filenames, as a matcher: two or
  more digits, an underscore, at most fifty characters of \<open>[A-Za-z0-9_]\<close>, two
  underscores, and one more character that is not a line feed. The digits of the name
  are followed by an underscore, so the digit group is the longest run of digits.
\<close>

definition is_word :: "char \<Rightarrow> bool" where
  "is_word c = (is_alnum c \<or> c = CHR ''_'')"

definition separator_then_any :: "string \<Rightarrow> bool" where
  "separator_then_any r =
     (case r of
        a # b # c # _ \<Rightarrow> a = CHR ''_'' \<and> b = CHR ''_'' \<and> c \<noteq> CHR 0x0A
      | _ \<Rightarrow> False)"

fun slug_then_separator :: "nat \<Rightarrow> string \<Rightarrow> bool" where
  "slug_then_separator 0 r = separator_then_any r"
| "slug_then_separator (Suc n) r =
     (separator_then_any r \<or>
      (case r of [] \<Rightarrow> False | c # cs \<Rightarrow> is_word c \<and> slug_then_separator n cs))"

definition spec_filename_pattern :: "string \<Rightarrow> bool" where
  "spec_filename_pattern s =
     (let ds = takeWhile is_digit s; r = dropWhile is_digit s
      in 2 \<le> length ds \<and>
         (case r of [] \<Rightarrow> False | c # cs \<Rightarrow> c = CHR ''_'' \<and> slug_then_separator 50 cs))"

text \<open>
  A trace in which the session state is written right after each completed login and at
  no other place.
\<close>

fun saves_due :: "bool \<Rightarrow> event list \<Rightarrow> bool" where
  \<comment> \<open>the flag says that a login has just completed, so that the next event has to be
      the write\<close>
  "saves_due due [] = (\<not> due)"
| "saves_due due (e # tr) =
     (if due then e = StorageState \<and> saves_due False tr
      else e \<noteq> StorageState \<and> saves_due (e = LogAuthenticationSuccessful) tr)"

definition saves_follow_logins :: "event list \<Rightarrow> bool" where
  "saves_follow_logins tr = saves_due False tr"

definition quiet :: "event list \<Rightarrow> bool" where
  \<comment> \<open>neither a completed login nor a write of the session state\<close>
  "quiet tr = (StorageState \<notin> set tr \<and> LogAuthenticationSuccessful \<notin> set tr)"

definition grows :: "(event list \<Rightarrow> bool) \<Rightarrow> 'a session_scheme \<Rightarrow> 'b session_scheme \<Rightarrow> bool" where
  \<comment> \<open>the later session has the trace of the earlier one and further events of the
      given shape\<close>
  "grows shape s s' = (\<exists>tr. trace s' = trace s @ tr \<and> shape tr)"

definition login_shape :: "error + bool \<Rightarrow> event list \<Rightarrow> bool" where
  \<comment> \<open>the events of a login attempt by its result: the mark of a completed login comes
      last when the result is \<open>Inr True\<close>, and not at all otherwise\<close>
  "login_shape r tr =
     (if r = Inr True then \<exists>tr0. tr = tr0 @ [LogAuthenticationSuccessful] \<and> quiet tr0
      else quiet tr)"

text \<open>
  The time that \<open>_is_authenticated\<close> takes on a page: the query of the main page and,
  when that answers no, the queries of the frames up to the first that shows the button.
\<close>

fun frames_check_time :: "document list \<Rightarrow> nat" where
  "frames_check_time [] = 0"
| "frames_check_time (frame # rest) =
     delay_of frame RoleDownload +
     (case visible_of frame RoleDownload of
        Some True \<Rightarrow> 0
      | _ \<Rightarrow> frames_check_time rest)"

definition check_time :: "page_state \<Rightarrow> nat" where
  "check_time p =
     delay_of (main_frame p) RoleDownload +
     (case visible_of (main_frame p) RoleDownload of
        Some False \<Rightarrow> frames_check_time (frames p)
      | _ \<Rightarrow> 0)"

text \<open>
  The name under which an item is stored when its processing starts in the session \<open>s\<close>
  and succeeds: made from the ordinal of the item, the slug, and the suggested filename
  of the download that the click on the download button of this item produces.
\<close>

definition suggested_of :: "env \<Rightarrow> result \<Rightarrow> session \<Rightarrow> string" where
  \<comment> \<open>\<open>download.suggested_filename\<close> of the download of this item\<close>
  "suggested_of env result s =
     suggested_filename (page (snd (act env DownloadClick (snd (reach_download env result s)))))"

definition stored_name_of :: "env \<Rightarrow> result \<Rightarrow> string \<Rightarrow> session \<Rightarrow> string" where
  "stored_name_of env result query_slug s =
     format_02d (result_index result) @ ''_'' @ query_slug @ ''__'' @
       sanitize_filename (suggested_or_default (result_index result) (suggested_of env result s))"

text \<open>
  The names that the item loop stores for a list of results, in the order of the
  results: one name for each item whose processing ends with a filename, none for the
  others. The next item starts in the session that the previous one has left after the
  pause of one second (and the navigation of the handler, when the pause raises).
\<close>

definition after_item :: "env \<Rightarrow> string \<Rightarrow> string \<Rightarrow> result \<Rightarrow> session \<Rightarrow> session" where
  "after_item env query_slug results_url result s =
     (case act env (WaitForTimeout 1000)
             (snd (download_pdf_from_result env result query_slug results_url s)) of
        (True, s2) \<Rightarrow> s2
      | (False, s2) \<Rightarrow> recover env results_url s2)"

fun stored_names :: "env \<Rightarrow> string \<Rightarrow> string \<Rightarrow> result list \<Rightarrow> session \<Rightarrow> string list" where
  "stored_names env query_slug results_url [] s = []"
| "stored_names env query_slug results_url (result # rest) s =
     (case fst (download_pdf_from_result env result query_slug results_url s) of
        None \<Rightarrow> []
      | Some name \<Rightarrow> [stored_name_of env result query_slug s]) @
     stored_names env query_slug results_url rest (after_item env query_slug results_url result s)"

text \<open>
  The results that a run enumerates (none when the browser does not start or the search
  fails), the URL of the results page, and the session in which the item loop starts.
\<close>

definition results_enumerated :: "env \<Rightarrow> (string \<Rightarrow> string) \<Rightarrow> string \<Rightarrow> session \<Rightarrow> result list" where
  "results_enumerated env quote query s =
     (case act env Launch s of
        (False, s1) \<Rightarrow> []
      | (True, s1) \<Rightarrow>
          (case perform_search env quote query s1 of
             (False, s2) \<Rightarrow> []
           | (True, s2) \<Rightarrow> fst (get_search_results env s2)))"

definition results_url_of :: "env \<Rightarrow> (string \<Rightarrow> string) \<Rightarrow> string \<Rightarrow> session \<Rightarrow> string" where
  "results_url_of env quote query s =
     url (page (snd (perform_search env quote query (snd (act env Launch s)))))"

definition loop_start :: "env \<Rightarrow> (string \<Rightarrow> string) \<Rightarrow> string \<Rightarrow> session \<Rightarrow> session" where
  "loop_start env quote query s =
     snd (get_search_results env (snd (perform_search env quote query (snd (act env Launch s)))))"

text \<open>
  The number of results that a run enumerates: zero when the browser does not start or
  the search fails.
\<close>

definition results_found :: "env \<Rightarrow> (string \<Rightarrow> string) \<Rightarrow> string \<Rightarrow> session \<Rightarrow> nat" where
  "results_found env quote query s =
     (case act env Launch s of
        (False, s1) \<Rightarrow> 0
      | (True, s1) \<Rightarrow>
          (case perform_search env quote query s1 of
             (False, s2) \<Rightarrow> 0
           | (True, s2) \<Rightarrow> length (fst (get_search_results env s2))))"

section \<open>Sample portals\<close>

definition document_with :: "selector list \<Rightarrow> selector list \<Rightarrow> document" where
  \<comment> \<open>a document in which the selectors of \<open>present\<close> match one element each and those of
      \<open>shown\<close> are visible; every call is answered at once\<close>
  "document_with present shown =
     \<lparr>count_of = (\<lambda>sel. Some (if sel \<in> set present then 1 else 0)),
      visible_of = (\<lambda>sel. Some (sel \<in> set shown)),
      delay_of = (\<lambda>sel. 0)\<rparr>"

definition blank_page :: page_state where
  "blank_page =
     \<lparr>url = [], main_frame = document_with [] [], frames = [], popups = [],
      rows = Some [], suggested_filename = []\<rparr>"

definition start :: session where
  "start = \<lparr>page = blank_page, clock = 0, trace = []\<rparr>"

definition results_page :: "string \<Rightarrow> row_text list \<Rightarrow> page_state" where
  "results_page u rs = blank_page\<lparr>url := u, rows := Some rs\<rparr>"

definition one_deed :: "row_text list" where
  "one_deed = [Text ''Warranty deed, Sunset Ridge'']"

definition two_deeds :: "row_text list" where
  "two_deeds = [Text ''Warranty deed, Sunset Ridge'', Text ''Quit claim deed, Sunset Ridge'']"

definition detail_page :: "nat \<Rightarrow> bool \<Rightarrow> page_state" where
  \<comment> \<open>the detail view of a signed-in user; \<open>free\<close>: the free download is offered\<close>
  "detail_page i free =
     blank_page\<lparr>url := base_url @ ''/doc/'' @ decimal i,
       main_frame := document_with [] (if free then [RoleDownload, RoleDownloadFree] else [RoleDownload])\<rparr>"

definition signed_in_portal :: "row_text list \<Rightarrow> nat list \<Rightarrow> env" where
  \<comment> \<open>a portal that lists the rows \<open>rs\<close> to a signed-in user; the results in \<open>paid\<close> have
      no free download; a row can be clicked on the results page only\<close>
  "signed_in_portal rs paid e p =
     (case e of
        Launch \<Rightarrow> (True, blank_page)
      | Goto u \<Rightarrow> (True, results_page u rs)
      | ClickRow i \<Rightarrow>
          if contains ''/results'' (url p) then (True, detail_page i (i \<notin> set paid)) else (False, p)
      | DownloadClick \<Rightarrow> (True, p\<lparr>suggested_filename := ''deed.pdf''\<rparr>)
      | _ \<Rightarrow> (True, p))"

definition offline_portal :: env where
  \<comment> \<open>every navigation fails\<close>
  "offline_portal e p = (case e of Goto u \<Rightarrow> (False, p) | _ \<Rightarrow> (True, p))"

definition login_page :: "nat \<Rightarrow> page_state" where
  \<comment> \<open>a detail view that shows the login form in the main document\<close>
  "login_page i =
     blank_page\<lparr>url := base_url @ ''/doc/'' @ decimal i,
       main_frame := document_with [InputTypeEmail, InputTypePassword, ButtonTypeSubmit]
                                   [InputTypeEmail, InputTypePassword, ButtonTypeSubmit]\<rparr>"

definition login_portal :: env where
  \<comment> \<open>a portal with one result that asks for a login and accepts the submitted form\<close>
  "login_portal e p =
     (case e of
        Launch \<Rightarrow> (True, blank_page)
      | Goto u \<Rightarrow> (True, results_page u one_deed)
      | ClickRow i \<Rightarrow> (True, login_page i)
      | Click c sel \<Rightarrow> (True, if c = MainPage \<and> sel = ButtonTypeSubmit then detail_page 1 True else p)
      | DownloadClick \<Rightarrow> (True, p\<lparr>suggested_filename := ''deed.pdf''\<rparr>)
      | _ \<Rightarrow> (True, p))"

definition stuck_browser :: env where
  \<comment> \<open>a browser that cannot be closed\<close>
  "stuck_browser e p = (e \<noteq> Close, p)"

definition still :: env where
  \<comment> \<open>a page that never changes\<close>
  "still e p = (True, p)"

definition framed_login_page :: page_state where
  \<comment> \<open>the login form is in the only frame; the main document has an e-mail input of its
      own (a newsletter box) and nothing of a login form\<close>
  "framed_login_page =
     blank_page\<lparr>url := base_url @ ''/doc/1'',
       main_frame := document_with [InputTypeEmail] [InputTypeEmail],
       frames := [document_with [InputTypeEmail, InputTypePassword, ButtonTypeSubmit]
                                [InputTypeEmail, InputTypePassword, ButtonTypeSubmit]]\<rparr>"

definition popup_download_page :: page_state where
  \<comment> \<open>the download button is visible in a popup window only\<close>
  "popup_download_page =
     blank_page\<lparr>url := base_url @ ''/doc/1'',
       popups := [document_with [] [RoleDownload, RoleDownloadFree]]\<rparr>"

definition slow_check_page :: page_state where
  \<comment> \<open>neither download button nor login form; the visibility query for the download
      button of the main page takes 1.5 seconds\<close>
  "slow_check_page =
     blank_page\<lparr>main_frame :=
       (document_with [] [])\<lparr>delay_of := (\<lambda>sel. if sel = RoleDownload then 1500 else 0)\<rparr>\<rparr>"

definition unstable_page :: page_state where
  \<comment> \<open>neither download button nor login form; \<open>count()\<close> raises on the main page\<close>
  "unstable_page =
     blank_page\<lparr>main_frame := (document_with [] [])\<lparr>count_of := (\<lambda>sel. None)\<rparr>\<rparr>"

definition slow_detail_page :: page_state where
  \<comment> \<open>the detail view of a signed-in user; the visibility query for the download button
      of the main page takes 1.5 seconds\<close>
  "slow_detail_page =
     blank_page\<lparr>url := base_url @ ''/doc/1'',
       main_frame :=
         (document_with [] [RoleDownload, RoleDownloadFree])
           \<lparr>delay_of := (\<lambda>sel. if sel = RoleDownload then 1500 else 0)\<rparr>\<rparr>"

definition framed_download_page :: page_state where
  \<comment> \<open>the download button is visible in the only frame; on the main page the visibility
      query for it raises, and the main page shows a login form\<close>
  "framed_download_page =
     blank_page\<lparr>url := base_url @ ''/doc/1'',
       main_frame :=
         (document_with [InputTypeEmail, InputTypePassword, ButtonTypeSubmit] [])
           \<lparr>visible_of := (\<lambda>sel. if sel = RoleDownload then None
              else Some (sel \<in> set [InputTypeEmail, InputTypePassword, ButtonTypeSubmit]))\<rparr>,
       frames := [document_with [] [RoleDownload, RoleDownloadFree]]\<rparr>"

section \<open>Properties of the sanitisers\<close>

lemma underscore_class [simp]:
  "\<not> is_space (CHR ''_'')" "\<not> is_alnum (CHR ''_'')" "\<not> is_illegal (CHR ''_'')" "\<not> is_space (CHR ''-'')"
  "\<not> is_illegal (CHR ''-'')"
  by (simp_all add: is_space_def is_alnum_def is_illegal_def)

lemma alnum_not_space: "is_alnum c \<Longrightarrow> \<not> is_space c"
  by (auto simp: is_alnum_def is_space_def Let_def)

lemma alnum_not_illegal: "is_alnum c \<Longrightarrow> \<not> is_illegal c"
  by (auto simp: is_alnum_def is_illegal_def Let_def)

lemma sanitize_filename_length: "length (sanitize_filename s) \<le> 200"
  by (simp add: sanitize_filename_def Let_def)

lemma sanitize_filename_legal: "c \<in> set (sanitize_filename s) \<Longrightarrow> \<not> is_illegal c"
proof -
  have m: "\<And>xs. c \<in> set (map (\<lambda>c. if is_illegal c then CHR ''_'' else c) xs) \<Longrightarrow> \<not> is_illegal c"
    by auto
  assume "c \<in> set (sanitize_filename s)"
  then have "c \<in> set (map (\<lambda>c. if is_illegal c then CHR ''_'' else c) s)"
    by (auto simp: sanitize_filename_def Let_def split: if_splits dest: in_set_takeD)
  then show ?thesis by (rule m)
qed

lemma sanitize_filename_fixed:
  assumes "length s \<le> 200" and "\<forall>c\<in>set s. \<not> is_illegal c"
  shows "sanitize_filename s = s"
proof -
  have "map (\<lambda>c. if is_illegal c then CHR ''_'' else c) s = s"
    using assms(2) by (induction s) auto
  then show ?thesis using assms(1) by (simp add: sanitize_filename_def Let_def)
qed

lemma sanitize_filename_idem: "sanitize_filename (sanitize_filename s) = sanitize_filename s"
  by (rule sanitize_filename_fixed) (auto simp: sanitize_filename_length sanitize_filename_legal)

lemma sub_spaces_set:
  "c \<in> set (sub_spaces b xs) \<Longrightarrow> c = CHR ''_'' \<or> (c \<in> set xs \<and> \<not> is_space c)"
  by (induction xs arbitrary: b) (auto split: if_splits)

lemma sub_spaces_fixed: "\<forall>c\<in>set xs. \<not> is_space c \<Longrightarrow> sub_spaces b xs = xs"
  by (induction xs arbitrary: b) auto

lemma strip_set: "c \<in> set (strip xs) \<Longrightarrow> c \<in> set xs"
  by (auto simp: strip_def dest!: set_dropWhileD)

lemma strip_fixed: "\<forall>c\<in>set xs. \<not> is_space c \<Longrightarrow> strip xs = xs"
proof -
  assume a: "\<forall>c\<in>set xs. \<not> is_space c"
  have dw: "\<And>ys. \<forall>c\<in>set ys. \<not> is_space c \<Longrightarrow> dropWhile is_space ys = ys"
    by (case_tac ys) auto
  have "dropWhile is_space xs = xs" using a by (rule dw)
  moreover have "dropWhile is_space (rev xs) = rev xs" using a by (intro dw) simp
  ultimately show ?thesis by (simp add: strip_def)
qed

lemma create_query_slug_length: "length (create_query_slug q) \<le> 50"
  by (simp add: create_query_slug_def Let_def)

lemma create_query_slug_chars:
  assumes "c \<in> set (create_query_slug q)"
  shows "is_alnum c \<or> c = CHR ''-'' \<or> c = CHR ''_''"
proof -
  from assms have "c \<in> set (sub_spaces False (strip (filter (\<lambda>c. is_alnum c \<or> is_space c \<or> c = CHR ''-'') q)))"
    by (auto simp: create_query_slug_def Let_def dest: in_set_takeD)
  then show ?thesis
    by (auto dest!: sub_spaces_set strip_set)
qed

lemma create_query_slug_twice:
  "create_query_slug (create_query_slug q) = filter (\<lambda>c. c \<noteq> CHR ''_'') (create_query_slug q)"
proof -
  let ?s = "create_query_slug q"
  let ?t = "filter (\<lambda>c. c \<noteq> CHR ''_'') ?s"
  have keep: "filter (\<lambda>c. is_alnum c \<or> is_space c \<or> c = CHR ''-'') ?s = ?t"
    by (rule filter_cong) (auto dest: create_query_slug_chars alnum_not_space)
  have nosp: "\<forall>c\<in>set ?t. \<not> is_space c"
    by (auto dest: create_query_slug_chars alnum_not_space)
  have len: "length ?t \<le> 50"
    by (rule order_trans [OF length_filter_le create_query_slug_length])
  have "create_query_slug ?s = take 50 (sub_spaces False (strip ?t))"
    unfolding create_query_slug_def [of ?s] Let_def keep ..
  also have "\<dots> = ?t" using nosp len by (simp add: strip_fixed sub_spaces_fixed)
  finally show ?thesis .
qed

lemma digit_char_is_digit:
  assumes "d < 10"
  shows "is_digit (digit_char d)"
proof -
  from assms have "d \<in> {0, 1, 2, 3, 4, 5, 6, 7, 8, 9}" by auto
  then show ?thesis by (auto simp: is_digit_def digit_char_def)
qed

lemma decimal_digits: "c \<in> set (decimal n) \<Longrightarrow> is_digit c"
proof (induction n rule: decimal.induct)
  case (1 n)
  then show ?case
    by (subst (asm) (2) decimal.simps) (auto simp: digit_char_is_digit split: if_splits)
qed

lemma decimal_nonempty: "decimal n \<noteq> []"
  by (subst decimal.simps) simp

lemma decimal_small: "n < 10 \<Longrightarrow> decimal n = [digit_char n]"
  by (subst decimal.simps) simp

lemma decimal_length_100: "n < 100 \<Longrightarrow> length (decimal n) \<le> 2"
  by (subst decimal.simps) (simp add: decimal_small)

lemma format_02d_digits: "c \<in> set (format_02d n) \<Longrightarrow> is_digit c"
  by (auto simp: format_02d_def is_digit_def dest: decimal_digits)

lemma format_02d_length: "2 \<le> length (format_02d n)"
  by (simp add: format_02d_def)

lemma format_02d_length_eq: "length (format_02d n) = max 2 (length (decimal n))"
  by (simp add: format_02d_def)

lemma digit_not_illegal: "is_digit c \<Longrightarrow> \<not> is_illegal c"
  by (auto simp: is_digit_def is_illegal_def)

lemma suggested_or_default_nonempty: "suggested_or_default i s \<noteq> []"
  by (simp add: suggested_or_default_def)

lemma sanitize_filename_nonempty: "s \<noteq> [] \<Longrightarrow> sanitize_filename s \<noteq> []"
  by (auto simp: sanitize_filename_def Let_def)


lemma final_filename_parts:
  "final_filename index (create_query_slug query) suggested =
     format_02d index @ ''_'' @ create_query_slug query @ ''__'' @
       sanitize_filename (suggested_or_default index suggested) \<and>
   2 \<le> length (format_02d index) \<and>
   list_all is_digit (format_02d index) \<and>
   length (create_query_slug query) \<le> 50 \<and>
   list_all (\<lambda>c. is_alnum c \<or> c = CHR ''_'' \<or> c = CHR ''-'') (create_query_slug query) \<and>
   sanitize_filename (suggested_or_default index suggested) \<noteq> [] \<and>
   length (sanitize_filename (suggested_or_default index suggested)) \<le> 200 \<and>
   list_all (\<lambda>c. \<not> is_illegal c) (final_filename index (create_query_slug query) suggested) \<and>
   length (final_filename index (create_query_slug query) suggested)
     \<le> max 2 (length (decimal index)) + 253"
proof -
  let ?slug = "create_query_slug query"
  let ?safe = "sanitize_filename (suggested_or_default index suggested)"
  have slug_legal: "\<And>c. c \<in> set ?slug \<Longrightarrow> \<not> is_illegal c"
    by (auto dest!: create_query_slug_chars simp: alnum_not_illegal)
  have legal: "list_all (\<lambda>c. \<not> is_illegal c) (final_filename index ?slug suggested)"
    by (auto simp: final_filename_def Let_def list_all_iff
        dest: format_02d_digits digit_not_illegal slug_legal sanitize_filename_legal)
  have len: "length (final_filename index ?slug suggested) \<le> max 2 (length (decimal index)) + 253"
    using create_query_slug_length [of query]
      sanitize_filename_length [of "suggested_or_default index suggested"]
    by (simp add: final_filename_def Let_def format_02d_length_eq)
  show ?thesis
    using legal len create_query_slug_length [of query]
      sanitize_filename_length [of "suggested_or_default index suggested"]
    by (auto simp: final_filename_def Let_def list_all_iff format_02d_length
        sanitize_filename_nonempty suggested_or_default_nonempty
        dest: format_02d_digits create_query_slug_chars)
qed

section \<open>What a run adds to the trace\<close>

lemma act_trace: "trace (snd (act env e s)) = trace s @ [e]"
  by (simp add: act_def split: prod.split)

lemma quiet_Nil [simp]: "quiet []"
  by (simp add: quiet_def)

lemma quiet_append [simp]: "quiet (a @ b) = (quiet a \<and> quiet b)"
  by (auto simp: quiet_def)

lemma quiet_single: "e \<noteq> StorageState \<Longrightarrow> e \<noteq> LogAuthenticationSuccessful \<Longrightarrow> quiet [e]"
  by (auto simp: quiet_def)

lemma grows_refl: "shape [] \<Longrightarrow> grows shape s s"
  by (simp add: grows_def)

lemma grows_same: "trace s' = trace s \<Longrightarrow> grows quiet s s'"
  by (simp add: grows_def)

lemma grows_quiet_trans: "grows quiet s s1 \<Longrightarrow> grows quiet s1 s2 \<Longrightarrow> grows quiet s s2"
  by (auto simp: grows_def)

lemma grows_act:
  assumes "act env e s = (ok, s1)" and "e \<noteq> StorageState" and "e \<noteq> LogAuthenticationSuccessful"
  shows "grows quiet s s1"
proof -
  from assms(1) have "trace s1 = trace s @ [e]"
    using act_trace [of env e s] by simp
  with assms(2,3) show ?thesis
    by (auto simp: grows_def quiet_single)
qed

lemma grows_act_then:
  assumes "act env e s = (ok, s1)" and "e \<noteq> StorageState" and "e \<noteq> LogAuthenticationSuccessful"
    and "grows quiet s1 s2"
  shows "grows quiet s s2"
  using grows_act [OF assms(1-3)] assms(4) by (rule grows_quiet_trans)

text \<open>The queries of the engine leave the page and the trace as they are.\<close>

lemma browser_call_same:
  "browser_call delay w = (ok, w1) \<Longrightarrow> trace w1 = trace w \<and> page w1 = page w"
  by (auto simp: browser_call_def split: option.splits if_splits)

lemma visible_query_same:
  "visible_query d sel w = (r, w1) \<Longrightarrow> trace w1 = trace w \<and> page w1 = page w"
  by (auto simp: visible_query_def split: prod.splits bool.splits dest: browser_call_same)

lemma count_query_same:
  "count_query d sel w = (r, w1) \<Longrightarrow> trace w1 = trace w \<and> page w1 = page w"
  by (auto simp: count_query_def split: prod.splits bool.splits option.splits dest: browser_call_same)

lemma await_frames_authenticated_same:
  "await_frames_authenticated fs w = (r, w1) \<Longrightarrow> trace w1 = trace w \<and> page w1 = page w"
proof (induction fs arbitrary: w)
  case Nil
  then show ?case by simp
next
  case (Cons frame rest)
  obtain a wa where q: "visible_query frame RoleDownload w = (a, wa)"
    by (cases "visible_query frame RoleDownload w")
  note same = visible_query_same [OF q]
  show ?case
  proof (cases "a = Some True")
    case True
    with Cons.prems q same show ?thesis by simp
  next
    case False
    with Cons.prems q have "await_frames_authenticated rest wa = (r, w1)"
      by (auto split: option.splits bool.splits)
    from Cons.IH [OF this] same show ?thesis by simp
  qed
qed

lemma await_is_authenticated_same:
  "await_is_authenticated w = (r, w1) \<Longrightarrow> trace w1 = trace w \<and> page w1 = page w"
proof -
  assume a: "await_is_authenticated w = (r, w1)"
  obtain v wa where q: "visible_query (main_frame (page w)) RoleDownload w = (v, wa)"
    by (cases "visible_query (main_frame (page w)) RoleDownload w")
  note same = visible_query_same [OF q]
  show ?thesis
  proof (cases "v = Some False")
    case False
    with a q have "w1 = wa"
      by (auto simp: await_is_authenticated_def split: option.splits bool.splits)
    with same show ?thesis by simp
  next
    case True
    with a q have "await_frames_authenticated (frames (page wa)) wa = (r, w1)"
      by (simp add: await_is_authenticated_def)
    from await_frames_authenticated_same [OF this] same show ?thesis by simp
  qed
qed

lemma await_any_count_same:
  "await_any_count d sels w = (r, w1) \<Longrightarrow> trace w1 = trace w \<and> page w1 = page w"
proof (induction sels arbitrary: w)
  case Nil
  then show ?case by simp
next
  case (Cons sel rest)
  obtain a wa where q: "count_query d sel w = (a, wa)"
    by (cases "count_query d sel w")
  note same = count_query_same [OF q]
  show ?case
  proof (cases "a = Inr 0")
    case False
    with Cons.prems q have "w1 = wa"
      by (auto split: sum.splits if_splits)
    with same show ?thesis by simp
  next
    case True
    with Cons.prems q have "await_any_count d rest wa = (r, w1)" by simp
    from Cons.IH [OF this] same show ?thesis by simp
  qed
qed

lemma await_frames_have_login_same:
  "await_frames_have_login fs w = (r, w1) \<Longrightarrow> trace w1 = trace w \<and> page w1 = page w"
proof (induction fs arbitrary: w)
  case Nil
  then show ?case by simp
next
  case (Cons frame rest)
  obtain a wa where q: "await_any_count frame login_selectors w = (a, wa)"
    by (cases "await_any_count frame login_selectors w")
  note same = await_any_count_same [OF q]
  show ?case
  proof (cases "a = Inr True")
    case True
    with Cons.prems q same show ?thesis by simp
  next
    case False
    with Cons.prems q have "await_frames_have_login rest wa = (r, w1)"
      by (auto split: sum.splits bool.splits)
    from Cons.IH [OF this] same show ?thesis by simp
  qed
qed

lemma await_has_login_forms_same:
  "await_has_login_forms w = (r, w1) \<Longrightarrow> trace w1 = trace w \<and> page w1 = page w"
proof -
  assume a: "await_has_login_forms w = (r, w1)"
  obtain v wa where q: "await_any_count (main_frame (page w)) login_selectors w = (v, wa)"
    by (cases "await_any_count (main_frame (page w)) login_selectors w")
  note same = await_any_count_same [OF q]
  show ?thesis
  proof (cases "v = Inr False")
    case False
    with a q have "w1 = wa"
      by (auto simp: await_has_login_forms_def split: sum.splits bool.splits)
    with same show ?thesis by simp
  next
    case True
    obtain f wb where fr: "await_frames_have_login (frames (page wa)) wa = (f, wb)"
      by (cases "await_frames_have_login (frames (page wa)) wa")
    with a q True have "w1 = wb" by (simp add: await_has_login_forms_def)
    with await_frames_have_login_same [OF fr] same show ?thesis by simp
  qed
qed

lemma is_visible_same:
  "is_visible c sel w = (r, w1) \<Longrightarrow> trace w1 = trace w \<and> page w1 = page w"
  by (auto simp: is_visible_def split: option.splits dest: visible_query_same)

text \<open>The actions of the engine add neither a write of the session state nor the mark
  of a login.\<close>

lemma guarded_act_trace:
  assumes "guarded_act env e delay w = (ok, w1)"
    and "e \<noteq> StorageState" and "e \<noteq> LogAuthenticationSuccessful"
  shows "grows quiet w w1"
proof -
  obtain b wa where c: "browser_call delay w = (b, wa)" by (cases "browser_call delay w")
  then have "trace wa = trace w" by (simp add: browser_call_same)
  moreover from assms(1) c have "w1 = snd (act env e wa)"
    by (auto simp: guarded_act_def split: bool.splits)
  ultimately have "trace w1 = trace w @ [e]" by (simp add: act_trace)
  with assms(2,3) show ?thesis by (auto simp: grows_def quiet_single)
qed

lemma sleep_trace: "sleep env d w = (ok, w1) \<Longrightarrow> grows quiet w w1"
  by (auto simp: sleep_def grows_def act_trace quiet_def split: option.splits if_splits)

lemma fill_first_trace: "grows quiet w (fill_first env c v sels w)"
proof (induction sels arbitrary: w)
  case Nil
  show ?case by (simp add: grows_refl)
next
  case (Cons sel rest)
  obtain a wa where q: "is_visible c sel w = (a, wa)" by (cases "is_visible c sel w")
  then have g0: "grows quiet w wa" by (simp add: grows_same is_visible_same)
  show ?case
  proof (cases "a = Some True")
    case False
    with q have "fill_first env c v (sel # rest) w = fill_first env c v rest wa"
      by (auto split: option.splits bool.splits)
    with g0 Cons.IH [of wa] show ?thesis by (auto intro: grows_quiet_trans)
  next
    case True
    obtain ok wb where f: "guarded_act env (Fill c sel v) (delay_in (page wa) c sel) wa = (ok, wb)"
      by (cases "guarded_act env (Fill c sel v) (delay_in (page wa) c sel) wa")
    have "grows quiet wa wb" using f by (rule guarded_act_trace) simp_all
    with g0 have g1: "grows quiet w wb" by (rule grows_quiet_trans)
    show ?thesis
    proof (cases ok)
      case True
      with \<open>a = Some True\<close> q f g1 show ?thesis by simp
    next
      case False
      with \<open>a = Some True\<close> q f
      have "fill_first env c v (sel # rest) w = fill_first env c v rest wb" by simp
      with g1 Cons.IH [of wb] show ?thesis by (auto intro: grows_quiet_trans)
    qed
  qed
qed

lemma click_first_trace: "grows quiet w (click_first env c sels w)"
proof (induction sels arbitrary: w)
  case Nil
  show ?case by (simp add: grows_refl)
next
  case (Cons sel rest)
  obtain a wa where q: "is_visible c sel w = (a, wa)" by (cases "is_visible c sel w")
  then have g0: "grows quiet w wa" by (simp add: grows_same is_visible_same)
  show ?case
  proof (cases "a = Some True")
    case False
    with q have "click_first env c (sel # rest) w = click_first env c rest wa"
      by (auto split: option.splits bool.splits)
    with g0 Cons.IH [of wa] show ?thesis by (auto intro: grows_quiet_trans)
  next
    case True
    obtain ok wb where f: "guarded_act env (Click c sel) (delay_in (page wa) c sel) wa = (ok, wb)"
      by (cases "guarded_act env (Click c sel) (delay_in (page wa) c sel) wa")
    have "grows quiet wa wb" using f by (rule guarded_act_trace) simp_all
    with g0 have g1: "grows quiet w wb" by (rule grows_quiet_trans)
    show ?thesis
    proof (cases ok)
      case True
      with \<open>a = Some True\<close> q f g1 show ?thesis by simp
    next
      case False
      with \<open>a = Some True\<close> q f
      have "click_first env c (sel # rest) w = click_first env c rest wb" by simp
      with g1 Cons.IH [of wb] show ?thesis by (auto intro: grows_quiet_trans)
    qed
  qed
qed

lemma fill_login_form_trace: "grows quiet w (fill_login_form env c w)"
  unfolding fill_login_form_def Let_def
  by (blast intro: grows_quiet_trans fill_first_trace click_first_trace)

lemma login_in_contexts_trace:
  "login_in_contexts env mk i ds w = (found, w1) \<Longrightarrow> grows quiet w w1"
proof (induction ds arbitrary: i w)
  case Nil
  then show ?case by (simp add: grows_refl)
next
  case (Cons d rest)
  obtain a wa where q: "count_query d InputTypePassword w = (a, wa)"
    by (cases "count_query d InputTypePassword w")
  then have g0: "grows quiet w wa" by (simp add: grows_same count_query_same)
  show ?case
  proof (cases "case a of Inl e \<Rightarrow> False | Inr n \<Rightarrow> 0 < n")
    case True
    with Cons.prems q have "w1 = fill_login_form env (mk i) wa"
      by (auto split: sum.splits)
    with g0 fill_login_form_trace [of wa env "mk i"] show ?thesis
      by (auto intro: grows_quiet_trans)
  next
    case False
    with Cons.prems q have "login_in_contexts env mk (Suc i) rest wa = (found, w1)"
      by (auto split: sum.splits if_splits)
    from g0 Cons.IH [OF this] show ?thesis by (rule grows_quiet_trans)
  qed
qed

lemma handle_login_trace:
  assumes "handle_login env w = (r, w')"
  shows "grows quiet w w'"
proof -
  obtain h wa where q: "await_has_login_forms w = (h, wa)" by (cases "await_has_login_forms w")
  then have g0: "grows quiet w wa" by (simp add: grows_same await_has_login_forms_same)
  obtain f wb where fr: "login_in_contexts env FrameAt 0 (frames (page wa)) wa = (f, wb)"
    by (cases "login_in_contexts env FrameAt 0 (frames (page wa)) wa")
  obtain p wc where po: "login_in_contexts env PopupAt 0 (popups (page wb)) wb = (p, wc)"
    by (cases "login_in_contexts env PopupAt 0 (popups (page wb)) wb")
  have g1: "grows quiet w (fill_login_form env MainPage wa)"
    using g0 fill_login_form_trace by (rule grows_quiet_trans)
  have g2: "grows quiet w wb" using g0 login_in_contexts_trace [OF fr] by (rule grows_quiet_trans)
  have g3: "grows quiet w wc" using g2 login_in_contexts_trace [OF po] by (rule grows_quiet_trans)
  from assms q fr po
  have "w' = wa \<or> w' = fill_login_form env MainPage wa \<or> w' = wb \<or> w' = wc"
    by (auto simp: handle_login_def split: sum.splits bool.splits)
  with g0 g1 g2 g3 show ?thesis by auto
qed

lemma login_shape_prepend:
  "quiet a \<Longrightarrow> login_shape r b \<Longrightarrow> login_shape r (a @ b)"
  by (auto simp: login_shape_def split: if_splits)

lemma grows_login_shape:
  "grows quiet s s1 \<Longrightarrow> grows (login_shape r) s1 s2 \<Longrightarrow> grows (login_shape r) s s2"
  by (auto simp: grows_def intro: login_shape_prepend)

lemma grows_quiet_login_shape: "r \<noteq> Inr True \<Longrightarrow> grows quiet s s1 \<Longrightarrow> grows (login_shape r) s s1"
  by (auto simp: grows_def login_shape_def)

lemma login_attempt_trace:
  assumes "login_attempt env w = (r, w')"
  shows "grows (login_shape r) w w'"
proof -
  obtain f wa where q: "await_has_login_forms w = (f, wa)" by (cases "await_has_login_forms w")
  then have g0: "grows quiet w wa" by (simp add: grows_same await_has_login_forms_same)
  show ?thesis
  proof (cases "f = Inr True")
    case False
    with assms q have "w' = wa" and "r \<noteq> Inr True"
      by (auto simp: login_attempt_def split: sum.splits bool.splits)
    with g0 show ?thesis by (simp add: grows_quiet_login_shape)
  next
    case True
    obtain h wb where h: "handle_login env wa = (h, wb)" by (cases "handle_login env wa")
    have g1: "grows quiet w wb" using g0 handle_login_trace [OF h] by (rule grows_quiet_trans)
    show ?thesis
    proof (cases "h = Inr True")
      case False
      with assms q True h have "w' = wb" and "r \<noteq> Inr True"
        by (auto simp: login_attempt_def split: sum.splits bool.splits)
      with g1 show ?thesis by (simp add: grows_quiet_login_shape)
    next
      case hT: True
      obtain ok wc where sl: "sleep env 3000 wb = (ok, wc)" by (cases "sleep env 3000 wb")
      have g2: "grows quiet w wc" using g1 sleep_trace [OF sl] by (rule grows_quiet_trans)
      obtain a wd where au: "await_is_authenticated wc = (a, wd)"
        by (cases "await_is_authenticated wc")
      have "grows quiet wc wd" using au by (simp add: grows_same await_is_authenticated_same)
      with g2 have g3: "grows quiet w wd" by (rule grows_quiet_trans)
      show ?thesis
      proof (cases "ok \<and> a")
        case False
        with assms q True h hT sl au have "(w' = wc \<or> w' = wd) \<and> r \<noteq> Inr True"
          by (auto simp: login_attempt_def split: if_splits bool.splits)
        with g2 g3 show ?thesis by (auto simp: grows_quiet_login_shape)
      next
        case okT: True
        with assms q True h hT sl au
        have "w' = log_event LogAuthenticationSuccessful wd" and "r = Inr True"
          by (auto simp: login_attempt_def)
        with g3 show ?thesis by (auto simp: grows_def login_shape_def log_event_def)
      qed
    qed
  qed
qed

lemma auth_loop_trace:
  "auth_loop env n w = (r, w') \<Longrightarrow> grows (login_shape r) w w'"
proof (induction n arbitrary: w)
  case 0
  then show ?case by (auto simp: grows_def login_shape_def)
next
  case (Suc n)
  obtain a wa where au: "await_is_authenticated w = (a, wa)"
    by (cases "await_is_authenticated w")
  then have g0: "grows quiet w wa" by (simp add: grows_same await_is_authenticated_same)
  show ?case
  proof (cases a)
    case True
    with Suc.prems au have "r = Inr False" and "w' = wa" by auto
    with g0 show ?thesis by (simp add: grows_quiet_login_shape)
  next
    case False
    obtain l wb where la: "login_attempt env wa = (l, wb)" by (cases "login_attempt env wa")
    have g1: "grows (login_shape l) w wb"
      using g0 login_attempt_trace [OF la] by (rule grows_login_shape)
    show ?thesis
    proof (cases "l = Inr False")
      case lF: False
      with Suc.prems au False la have "r = l" and "w' = wb"
        by (auto split: sum.splits bool.splits)
      with g1 show ?thesis by simp
    next
      case lT: True
      with g1 have q1: "grows quiet w wb" by (simp add: grows_def login_shape_def)
      obtain ok wc where sl: "sleep env 2000 wb = (ok, wc)" by (cases "sleep env 2000 wb")
      have q2: "grows quiet w wc" using q1 sleep_trace [OF sl] by (rule grows_quiet_trans)
      show ?thesis
      proof (cases ok)
        case okF: False
        with Suc.prems au False la lT sl have "r = Inl CancelledError" and "w' = wc" by auto
        with q2 show ?thesis by (simp add: grows_quiet_login_shape)
      next
        case okT: True
        with Suc.prems au False la lT sl have "auth_loop env n wc = (r, w')" by auto
        then have "grows (login_shape r) wc w'" by (rule Suc.IH)
        with q2 show ?thesis by (rule grows_login_shape)
      qed
    qed
  qed
qed

lemma trace_session_of [simp]: "trace (session_of w) = trace w"
  by (simp add: session_of_def)

lemma trace_under_deadline [simp]: "trace (under_deadline d s) = trace s"
  by (simp add: under_deadline_def)

lemma ensure_authenticated_trace:
  assumes "ensure_authenticated env timeout s = (r, s')"
  shows "grows (login_shape (if r = Inr (True, True) then Inr True else Inr False)) s s'"
proof (cases "timeout = 0")
  case True
  with assms have "s' = s" and "r = Inr (False, False)"
    by (simp_all add: ensure_authenticated_def)
  then show ?thesis by (simp add: grows_def login_shape_def)
next
  case False
  obtain a w where a: "auth_loop env 6 (under_deadline (clock s + timeout) s) = (a, w)"
    by (cases "auth_loop env 6 (under_deadline (clock s + timeout) s)")
  from auth_loop_trace [OF a] have g: "grows (login_shape a) s (session_of w)"
    by (simp add: grows_def)
  from assms a False have s': "s' = session_of w" and r: "(r = Inr (True, True)) = (a = Inr True)"
    by (auto simp: ensure_authenticated_def split: sum.splits error.splits)
  show ?thesis using g unfolding s' r by (auto simp: login_shape_def grows_def)
qed

lemma saves_due_append:
  "saves_due due a \<Longrightarrow> saves_due False b \<Longrightarrow> saves_due due (a @ b)"
  by (induction a arbitrary: due) (auto split: if_splits)

lemma saves_follow_logins_append:
  "saves_follow_logins a \<Longrightarrow> saves_follow_logins b \<Longrightarrow> saves_follow_logins (a @ b)"
  unfolding saves_follow_logins_def by (rule saves_due_append)

lemma quiet_saves_due: "quiet tr \<Longrightarrow> saves_due False tr"
  by (induction tr) (auto simp: quiet_def)

lemma quiet_saves_follow_logins: "quiet tr \<Longrightarrow> saves_follow_logins tr"
  unfolding saves_follow_logins_def by (rule quiet_saves_due)

lemma login_then_save: "saves_follow_logins [LogAuthenticationSuccessful, StorageState]"
  by (simp add: saves_follow_logins_def)

lemma grows_saves_trans:
  "grows saves_follow_logins s s1 \<Longrightarrow> grows saves_follow_logins s1 s2 \<Longrightarrow> grows saves_follow_logins s s2"
  by (auto simp: grows_def intro: saves_follow_logins_append)

lemma grows_quiet_saves: "grows quiet s s1 \<Longrightarrow> grows saves_follow_logins s s1"
  by (auto simp: grows_def intro: quiet_saves_follow_logins)

lemma capture_download_events:
  assumes "capture_download env index query_slug results_url s = (Some name, s')"
  shows "name = final_filename index query_slug
                  (suggested_filename (page (snd (act env DownloadClick s)))) \<and>
         trace s' = trace s @ [DownloadClick, SaveAs name, Goto results_url, WaitForTimeout 2000]"
proof -
  obtain ok1 s1 where a1: "act env DownloadClick s = (ok1, s1)"
    by (cases "act env DownloadClick s")
  let ?name = "final_filename index query_slug (suggested_filename (page s1))"
  obtain ok2 s2 where a2: "act env (SaveAs ?name) s1 = (ok2, s2)"
    by (cases "act env (SaveAs ?name) s1")
  obtain ok3 s3 where a3: "act env (Goto results_url) s2 = (ok3, s3)"
    by (cases "act env (Goto results_url) s2")
  obtain ok4 s4 where a4: "act env (WaitForTimeout 2000) s3 = (ok4, s4)"
    by (cases "act env (WaitForTimeout 2000) s3")
  from assms a1 a2 a3 a4 have n: "name = ?name" and s': "s' = s4"
    by (auto simp: capture_download_def Let_def split: option.splits bool.splits)
  have "trace s4 = trace s @ [DownloadClick, SaveAs ?name, Goto results_url, WaitForTimeout 2000]"
    using act_trace [of env DownloadClick s] act_trace [of env "SaveAs ?name" s1]
      act_trace [of env "Goto results_url" s2] act_trace [of env "WaitForTimeout 2000" s3]
      a1 a2 a3 a4 by simp
  with n s' a1 show ?thesis by simp
qed

lemma capture_download_trace:
  assumes "capture_download env index query_slug results_url s = (r, s')"
  shows "grows quiet s s'"
proof (cases "visible_of (main_frame (page s)) RoleDownloadFree = Some True")
  case False
  with assms have "s' = s"
    by (auto simp: capture_download_def split: option.splits bool.splits)
  then show ?thesis by (simp add: grows_refl)
next
  case True
  obtain ok1 s1 where a1: "act env DownloadClick s = (ok1, s1)"
    by (cases "act env DownloadClick s")
  let ?name = "final_filename index query_slug (suggested_filename (page s1))"
  obtain ok2 s2 where a2: "act env (SaveAs ?name) s1 = (ok2, s2)"
    by (cases "act env (SaveAs ?name) s1")
  obtain ok3 s3 where a3: "act env (Goto results_url) s2 = (ok3, s3)"
    by (cases "act env (Goto results_url) s2")
  obtain ok4 s4 where a4: "act env (WaitForTimeout 2000) s3 = (ok4, s4)"
    by (cases "act env (WaitForTimeout 2000) s3")
  have g1: "grows quiet s s1" using a1 by (rule grows_act) simp_all
  have g2: "grows quiet s s2" using g1 grows_act [OF a2] by (auto intro: grows_quiet_trans)
  have g3: "grows quiet s s3" using g2 grows_act [OF a3] by (auto intro: grows_quiet_trans)
  have g4: "grows quiet s s4" using g3 grows_act [OF a4] by (auto intro: grows_quiet_trans)
  from assms True a1 a2 a3 a4 have "s' = s1 \<or> s' = s2 \<or> s' = s3 \<or> s' = s4"
    by (auto simp: capture_download_def Let_def split: bool.splits)
  with g1 g2 g3 g4 show ?thesis by auto
qed

lemma reach_download_trace:
  assumes "reach_download env result s = (ok, s')"
  shows "grows saves_follow_logins s s'"
proof -
  let ?i = "result_index result"
  obtain ok1 s1 where a1: "act env (ClickRow ?i) s = (ok1, s1)"
    by (cases "act env (ClickRow ?i) s")
  obtain ok2 s2 where a2: "act env (WaitForTimeout 3000) s1 = (ok2, s2)"
    by (cases "act env (WaitForTimeout 3000) s1")
  obtain a s3 where a: "ensure_authenticated env 30000 s2 = (a, s3)"
    by (cases "ensure_authenticated env 30000 s2")
  have g1: "grows quiet s s1" using a1 by (rule grows_act) simp_all
  have g2: "grows quiet s s2" using g1 grows_act [OF a2] by (auto intro: grows_quiet_trans)
  define c where "c = contains ''/doc/'' (url (page s2))"
  have re: "(ok, s') =
     (if \<not> ok1 then (False, s1)
      else if \<not> ok2 then (False, s2)
      else if \<not> c then (False, s2)
      else (case a of
              Inl e \<Rightarrow> (False, s3)
            | Inr (False, just_logged_in) \<Rightarrow> (False, s3)
            | Inr (True, just_logged_in) \<Rightarrow>
                (True, if just_logged_in then snd (act env StorageState s3) else s3)))"
    unfolding assms [symmetric] reach_download_def a1 c_def
    by (cases ok1; cases ok2; simp add: a2 a)
  show ?thesis
  proof (cases "ok1 \<and> ok2 \<and> c")
    case False
    with re have "s' = s1 \<or> s' = s2" by (auto split: if_splits)
    with g1 g2 show ?thesis by (auto intro: grows_quiet_saves)
  next
    case True
    note shape = ensure_authenticated_trace [OF a]
    show ?thesis
    proof (cases "a = Inr (True, True)")
      case aT: True
      from shape aT obtain tr0 where
        tr0: "trace s3 = trace s2 @ tr0 @ [LogAuthenticationSuccessful]" "quiet tr0"
        by (auto simp: grows_def login_shape_def)
      from re True aT have "s' = snd (act env StorageState s3)" by simp
      then have "trace s' = trace s2 @ (tr0 @ [LogAuthenticationSuccessful, StorageState])"
        using tr0(1) by (simp add: act_trace)
      moreover have "saves_follow_logins (tr0 @ [LogAuthenticationSuccessful, StorageState])"
        using tr0(2) by (intro saves_follow_logins_append quiet_saves_follow_logins login_then_save)
      ultimately have "grows saves_follow_logins s2 s'" unfolding grows_def by (rule_tac x = "tr0 @ [LogAuthenticationSuccessful, StorageState]" in exI) simp
      then show ?thesis by (rule grows_saves_trans [OF grows_quiet_saves [OF g2]])
    next
      case aF: False
      with shape have q: "grows quiet s2 s3" by (simp add: login_shape_def grows_def)
      from re True aF have "s' = s3" by (cases a) (auto split: bool.splits if_splits)
      then show ?thesis using grows_quiet_saves [OF grows_quiet_trans [OF g2 q]] by simp
    qed
  qed
qed

lemma download_pdf_from_result_trace:
  assumes "download_pdf_from_result env result query_slug results_url s = (r, s')"
  shows "grows saves_follow_logins s s'"
proof -
  obtain ok s1 where re: "reach_download env result s = (ok, s1)"
    by (cases "reach_download env result s")
  note g1 = reach_download_trace [OF re]
  show ?thesis
  proof (cases ok)
    case False
    with assms re have "s' = s1" by (simp add: download_pdf_from_result_def)
    with g1 show ?thesis by simp
  next
    case True
    with assms re
    have "capture_download env (result_index result) query_slug results_url s1 = (r, s')"
      by (simp add: download_pdf_from_result_def)
    then have "grows quiet s1 s'" by (rule capture_download_trace)
    then show ?thesis by (rule grows_saves_trans [OF g1 grows_quiet_saves])
  qed
qed

lemma recover_trace: "grows quiet s (recover env results_url s)"
proof -
  obtain ok1 s1 where a1: "act env (Goto results_url) s = (ok1, s1)"
    by (cases "act env (Goto results_url) s")
  obtain ok2 s2 where a2: "act env (WaitForTimeout 2000) s1 = (ok2, s2)"
    by (cases "act env (WaitForTimeout 2000) s1")
  have g1: "grows quiet s s1" using a1 by (rule grows_act) simp_all
  have g2: "grows quiet s s2" using g1 grows_act [OF a2] by (auto intro: grows_quiet_trans)
  from a1 a2 have "recover env results_url s = s1 \<or> recover env results_url s = s2"
    by (auto simp: recover_def split: bool.splits)
  with g1 g2 show ?thesis by auto
qed

lemma process_results_trace:
  "process_results env query_slug results_url results acc s = (r, s') \<Longrightarrow>
   grows saves_follow_logins s s'"
proof (induction results arbitrary: acc s)
  case Nil
  then show ?case by (simp add: grows_refl saves_follow_logins_def)
next
  case (Cons result rest)
  obtain fn s1 where d: "download_pdf_from_result env result query_slug results_url s = (fn, s1)"
    by (cases "download_pdf_from_result env result query_slug results_url s")
  obtain ok s2 where w: "act env (WaitForTimeout 1000) s1 = (ok, s2)"
    by (cases "act env (WaitForTimeout 1000) s1")
  let ?s3 = "if ok then s2 else recover env results_url s2"
  have g1: "grows saves_follow_logins s s1" using d by (rule download_pdf_from_result_trace)
  have "grows quiet s1 s2" using w by (rule grows_act) simp_all
  then have "grows quiet s1 ?s3" using recover_trace [of s2 env results_url]
    by (auto intro: grows_quiet_trans)
  then have "grows saves_follow_logins s1 ?s3" by (rule grows_quiet_saves)
  with g1 have g3: "grows saves_follow_logins s ?s3" by (rule grows_saves_trans)
  from Cons.prems d w obtain acc1 where
    "process_results env query_slug results_url rest acc1 ?s3 = (r, s')"
    by (auto simp: Let_def split: bool.splits)
  then have "grows saves_follow_logins ?s3 s'" by (rule Cons.IH)
  with g3 show ?case by (rule grows_saves_trans)
qed

lemma perform_search_trace: "perform_search env quote query s = (ok, s') \<Longrightarrow> grows quiet s s'"
  unfolding perform_search_def Let_def
  by (auto split: prod.splits bool.splits intro: grows_act grows_act_then)

lemma get_search_results_trace: "get_search_results env s = (results, s') \<Longrightarrow> grows quiet s s'"
  unfolding get_search_results_def
  by (auto split: prod.splits bool.splits option.splits intro: grows_act)

lemma search_and_download_trace:
  assumes "search_and_download env quote limit query s = (r, s')"
  shows "\<exists>tr. trace s' = trace s @ tr \<and>
    (if fst (perform_search env quote query s)
        \<and> fst (get_search_results env (snd (perform_search env quote query s))) \<noteq> []
     then \<exists>tr0. tr = tr0 @ [StorageState] \<and> saves_follow_logins tr0
     else quiet tr)"
proof -
  obtain ok s1 where p: "perform_search env quote query s = (ok, s1)"
    by (cases "perform_search env quote query s")
  obtain results s2 where g: "get_search_results env s1 = (results, s2)"
    by (cases "get_search_results env s1")
  have g1: "grows quiet s s1" using p by (rule perform_search_trace)
  have g2: "grows quiet s s2" using g1 get_search_results_trace [OF g] by (rule grows_quiet_trans)
  show ?thesis
  proof (cases "ok \<and> results \<noteq> []")
    case False
    with assms p g have "s' = s1 \<or> s' = s2"
      by (auto simp: search_and_download_def Let_def split: bool.splits if_splits)
    with g1 g2 False p g show ?thesis by (auto simp: grows_def)
  next
    case True
    obtain acc s3 where pr: "process_results env (create_query_slug query) (url (page s1))
        (apply_limit limit results) \<lparr>count = 0, files = []\<rparr> s2 = (acc, s3)"
      by (cases "process_results env (create_query_slug query) (url (page s1))
        (apply_limit limit results) \<lparr>count = 0, files = []\<rparr> s2")
    then have "grows saves_follow_logins s2 s3" by (rule process_results_trace)
    with grows_quiet_saves [OF g2] have "grows saves_follow_logins s s3"
      by (rule grows_saves_trans)
    then obtain tr0 where tr0: "trace s3 = trace s @ tr0" "saves_follow_logins tr0"
      by (auto simp: grows_def)
    from assms p g True pr have "s' = snd (act env StorageState s3)"
      by (auto simp: search_and_download_def Let_def)
    then have "trace s' = trace s @ tr0 @ [StorageState]"
      using tr0(1) by (simp add: act_trace)
    with tr0(2) True p g show ?thesis by simp
  qed
qed

lemma process_results_count:
  assumes "process_results env query_slug results_url results acc s = (r, s')"
    and "count acc = length (files acc)"
  shows "count r = length (files r) \<and> length (files r) \<le> length (files acc) + length results"
  using assms
proof (induction results arbitrary: acc s)
  case Nil
  then show ?case by simp
next
  case (Cons result rest)
  obtain fn s1 where d: "download_pdf_from_result env result query_slug results_url s = (fn, s1)"
    by (cases "download_pdf_from_result env result query_slug results_url s")
  obtain ok s2 where w: "act env (WaitForTimeout 1000) s1 = (ok, s2)"
    by (cases "act env (WaitForTimeout 1000) s1")
  let ?acc1 = "case fn of None \<Rightarrow> acc
     | Some name \<Rightarrow> if name \<noteq> [] then \<lparr>count = count acc + 1, files = files acc @ [name]\<rparr> else acc"
  let ?s3 = "if ok then s2 else recover env results_url s2"
  have c1: "count ?acc1 = length (files ?acc1)" and l1: "length (files ?acc1) \<le> length (files acc) + 1"
    using Cons.prems(2) by (auto split: option.splits)
  from Cons.prems(1) d w have "process_results env query_slug results_url rest ?acc1 ?s3 = (r, s')"
    by (auto simp: Let_def split: bool.splits)
  from Cons.IH [OF this c1] l1 show ?case by simp
qed

lemma apply_limit_length: "length (apply_limit limit xs) \<le> length xs"
  by (auto simp: apply_limit_def py_take_def split: option.splits)

lemma apply_limit_positive: "0 < l \<Longrightarrow> length (apply_limit (Some l) xs) \<le> nat l"
  by (auto simp: apply_limit_def py_take_def)

lemma search_and_download_count:
  assumes "search_and_download env quote limit query s = (r, s')"
  shows "count r = length (files r) \<and>
    length (files r) \<le> (if fst (perform_search env quote query s)
        then length (fst (get_search_results env (snd (perform_search env quote query s)))) else 0) \<and>
    (\<forall>l. limit = Some l \<and> 0 < l \<longrightarrow> length (files r) \<le> nat l)"
proof -
  obtain ok s1 where p: "perform_search env quote query s = (ok, s1)"
    by (cases "perform_search env quote query s")
  obtain results s2 where g: "get_search_results env s1 = (results, s2)"
    by (cases "get_search_results env s1")
  show ?thesis
  proof (cases "ok \<and> results \<noteq> []")
    case False
    with assms p g have "r = \<lparr>count = 0, files = []\<rparr>"
      by (auto simp: search_and_download_def Let_def split: bool.splits if_splits)
    then show ?thesis by simp
  next
    case True
    obtain acc s3 where pr: "process_results env (create_query_slug query) (url (page s1))
        (apply_limit limit results) \<lparr>count = 0, files = []\<rparr> s2 = (acc, s3)"
      by (cases "process_results env (create_query_slug query) (url (page s1))
        (apply_limit limit results) \<lparr>count = 0, files = []\<rparr> s2")
    from process_results_count [OF pr]
    have c: "count acc = length (files acc)" and b: "length (files acc) \<le> length (apply_limit limit results)"
      by simp_all
    from assms p g True pr have r: "r = acc"
      by (auto simp: search_and_download_def Let_def)
    have "length (files acc) \<le> length results"
      using b apply_limit_length [of limit results] by (rule order_trans)
    moreover have "\<forall>l. limit = Some l \<and> 0 < l \<longrightarrow> length (files acc) \<le> nat l"
      using b apply_limit_positive [of _ results] by (auto intro: order_trans)
    ultimately show ?thesis using c p g True unfolding r by simp
  qed
qed

section \<open>The first check within the timeout\<close>

text \<open>
  As long as the deadline has not passed, a query is answered as the page answers it,
  and the clock moves by the time that the query takes. So the first check of
  \<open>_auth_loop\<close> gives the answer of \<open>is_authenticated\<close> after \<open>check_time\<close>, provided
  that this is less than the timeout.
\<close>

lemma browser_call_in_time:
  "armed w = Some deadline \<Longrightarrow> clock w + delay < deadline \<Longrightarrow>
   browser_call delay w = (True, w\<lparr>clock := clock w + delay\<rparr>)"
  by (simp add: browser_call_def)

lemma visible_query_in_time:
  "armed w = Some deadline \<Longrightarrow> clock w + delay_of d sel < deadline \<Longrightarrow>
   visible_query d sel w = (visible_of d sel, w\<lparr>clock := clock w + delay_of d sel\<rparr>)"
  by (simp add: visible_query_def browser_call_in_time)

lemma await_frames_authenticated_in_time:
  "armed w = Some deadline \<Longrightarrow> clock w + frames_check_time fs < deadline \<Longrightarrow>
   await_frames_authenticated fs w =
     (frames_authenticated fs, w\<lparr>clock := clock w + frames_check_time fs\<rparr>)"
proof (induction fs arbitrary: w)
  case Nil
  then show ?case by simp
next
  case (Cons frame rest)
  let ?w1 = "w\<lparr>clock := clock w + delay_of frame RoleDownload\<rparr>"
  from Cons.prems(2) have "clock w + delay_of frame RoleDownload < deadline" by simp
  with Cons.prems(1)
  have q: "visible_query frame RoleDownload w = (visible_of frame RoleDownload, ?w1)"
    by (rule visible_query_in_time)
  show ?case
  proof (cases "visible_of frame RoleDownload = Some True")
    case True
    with q show ?thesis by simp
  next
    case False
    with Cons.prems have "clock ?w1 + frames_check_time rest < deadline" and "armed ?w1 = Some deadline"
      by (auto split: option.splits bool.splits)
    from Cons.IH [OF this(2) this(1)] False q show ?thesis
      by (auto simp: add.assoc split: option.splits bool.splits)
  qed
qed

lemma await_is_authenticated_in_time:
  assumes "armed w = Some deadline" and "clock w + check_time (page w) < deadline"
  shows "await_is_authenticated w =
     (is_authenticated (page w), w\<lparr>clock := clock w + check_time (page w)\<rparr>)"
proof -
  let ?d = "delay_of (main_frame (page w)) RoleDownload"
  let ?w1 = "w\<lparr>clock := clock w + ?d\<rparr>"
  from assms have "clock w + ?d < deadline" by (simp add: check_time_def)
  with assms(1)
  have q: "visible_query (main_frame (page w)) RoleDownload w =
             (visible_of (main_frame (page w)) RoleDownload, ?w1)"
    by (rule visible_query_in_time)
  show ?thesis
  proof (cases "visible_of (main_frame (page w)) RoleDownload = Some False")
    case False
    with q show ?thesis
      by (auto simp: await_is_authenticated_def is_authenticated_def check_time_def
          split: option.splits bool.splits)
  next
    case True
    with assms have "armed ?w1 = Some deadline"
      and "clock ?w1 + frames_check_time (frames (page ?w1)) < deadline"
      by (simp_all add: check_time_def)
    from await_frames_authenticated_in_time [OF this] True q show ?thesis
      by (simp add: await_is_authenticated_def is_authenticated_def check_time_def add.assoc)
  qed
qed

lemma frames_authenticated_iff:
  "frames_authenticated fs = (\<exists>frame\<in>set fs. visible_of frame RoleDownload = Some True)"
  by (induction fs) (auto split: option.splits bool.splits)

lemma is_authenticated_iff:
  "is_authenticated p =
     (visible_of (main_frame p) RoleDownload = Some True \<or>
      visible_of (main_frame p) RoleDownload = Some False \<and>
        (\<exists>frame\<in>set (frames p). visible_of frame RoleDownload = Some True))"
  by (auto simp: is_authenticated_def frames_authenticated_iff split: option.splits bool.splits)

lemma ensure_authenticated_at_once:
  assumes "is_authenticated (page s)" and "check_time (page s) < timeout"
  shows "ensure_authenticated env timeout s =
           (Inr (True, False), s\<lparr>clock := clock s + check_time (page s)\<rparr>)"
proof -
  let ?w = "under_deadline (clock s + timeout) s"
  have "armed ?w = Some (clock s + timeout)"
    and "clock ?w + check_time (page ?w) < clock s + timeout"
    using assms(2) by (simp_all add: under_deadline_def)
  from await_is_authenticated_in_time [OF this] assms(1)
  have "await_is_authenticated ?w = (True, ?w\<lparr>clock := clock s + check_time (page s)\<rparr>)"
    by (simp add: under_deadline_def)
  then have "auth_loop env 6 ?w = (Inr False, ?w\<lparr>clock := clock s + check_time (page s)\<rparr>)"
    by (simp add: numeral_eq_Suc)
  moreover have "session_of (?w\<lparr>clock := clock s + check_time (page s)\<rparr>) =
      s\<lparr>clock := clock s + check_time (page s)\<rparr>"
    by (simp add: session_of_def under_deadline_def)
  ultimately show ?thesis using assms(2) by (simp add: ensure_authenticated_def)
qed

section \<open>Where stored filenames come from\<close>

lemma download_pdf_from_result_name:
  assumes "download_pdf_from_result env result query_slug results_url s = (Some name, s')"
  shows "name = stored_name_of env result query_slug s \<and>
         (\<exists>tr. trace s' = trace s @ tr @
                  [DownloadClick, SaveAs name, Goto results_url, WaitForTimeout 2000])"
proof -
  obtain ok s1 where re: "reach_download env result s = (ok, s1)"
    by (cases "reach_download env result s")
  with assms have c: "capture_download env (result_index result) query_slug results_url s1 = (Some name, s')"
    by (cases ok) (simp_all add: download_pdf_from_result_def)
  from reach_download_trace [OF re] obtain tr where tr: "trace s1 = trace s @ tr"
    by (auto simp: grows_def)
  from capture_download_events [OF c] re tr show ?thesis
    by (simp add: stored_name_of_def suggested_of_def final_filename_def)
qed

lemma stored_name_of_nonempty: "stored_name_of env result query_slug s \<noteq> []"
  by (simp add: stored_name_of_def)

lemma apply_limit_Nil: "apply_limit limit [] = []"
  by (simp add: apply_limit_def py_take_def split: option.splits)

lemma process_results_files:
  "process_results env query_slug results_url results acc s = (r, s') \<Longrightarrow>
   files r = files acc @ stored_names env query_slug results_url results s"
proof (induction results arbitrary: acc s)
  case Nil
  then show ?case by simp
next
  case (Cons result rest)
  obtain fn s1 where d: "download_pdf_from_result env result query_slug results_url s = (fn, s1)"
    by (cases "download_pdf_from_result env result query_slug results_url s")
  obtain ok s2 where w: "act env (WaitForTimeout 1000) s1 = (ok, s2)"
    by (cases "act env (WaitForTimeout 1000) s1")
  let ?acc1 = "case fn of None \<Rightarrow> acc
     | Some name \<Rightarrow> if name \<noteq> [] then \<lparr>count = count acc + 1, files = files acc @ [name]\<rparr> else acc"
  let ?s3 = "if ok then s2 else recover env results_url s2"
  have next_start: "after_item env query_slug results_url result s = ?s3"
    using d w by (simp add: after_item_def)
  have "files ?acc1 = files acc @
      (case fn of None \<Rightarrow> [] | Some name \<Rightarrow> [stored_name_of env result query_slug s])"
  proof (cases fn)
    case None
    then show ?thesis by simp
  next
    case (Some name)
    with d have "name = stored_name_of env result query_slug s"
      using download_pdf_from_result_name [of env result query_slug results_url s name s1] by simp
    with Some show ?thesis by (simp add: stored_name_of_nonempty)
  qed
  moreover from Cons.prems d w
  have "process_results env query_slug results_url rest ?acc1 ?s3 = (r, s')"
    by (auto simp: Let_def split: bool.splits)
  then have "files r = files ?acc1 @ stored_names env query_slug results_url rest ?s3"
    by (rule Cons.IH)
  ultimately show ?case using d next_start by simp
qed

lemma search_and_download_files:
  assumes "search_and_download env quote limit query s = (r, s')"
  shows "files r =
     stored_names env (create_query_slug query) (url (page (snd (perform_search env quote query s))))
       (apply_limit limit
          (if fst (perform_search env quote query s)
           then fst (get_search_results env (snd (perform_search env quote query s))) else []))
       (snd (get_search_results env (snd (perform_search env quote query s))))"
proof -
  obtain ok s1 where p: "perform_search env quote query s = (ok, s1)"
    by (cases "perform_search env quote query s")
  obtain results s2 where g: "get_search_results env s1 = (results, s2)"
    by (cases "get_search_results env s1")
  show ?thesis
  proof (cases "ok \<and> results \<noteq> []")
    case False
    with assms p g have "r = \<lparr>count = 0, files = []\<rparr>"
      by (auto simp: search_and_download_def Let_def split: bool.splits if_splits)
    with False p g show ?thesis by (auto simp: apply_limit_Nil)
  next
    case True
    obtain acc s3 where pr: "process_results env (create_query_slug query) (url (page s1))
        (apply_limit limit results) \<lparr>count = 0, files = []\<rparr> s2 = (acc, s3)"
      by (cases "process_results env (create_query_slug query) (url (page s1))
        (apply_limit limit results) \<lparr>count = 0, files = []\<rparr> s2")
    from assms p g True pr have "r = acc"
      by (auto simp: search_and_download_def Let_def)
    with process_results_files [OF pr] p g True show ?thesis by simp
  qed
qed

lemma download_all_pdfs_files:
  assumes "fst (download_all_pdfs env quote limit query s) = Inr r"
  shows "files r =
     stored_names env (create_query_slug query) (results_url_of env quote query s)
       (apply_limit limit (results_enumerated env quote query s))
       (loop_start env quote query s)"
proof -
  obtain ok s1 where l: "act env Launch s = (ok, s1)" by (cases "act env Launch s")
  show ?thesis
  proof (cases ok)
    case False
    with assms l have "r = \<lparr>count = 0, files = []\<rparr>"
      by (simp add: download_all_pdfs_def)
    with False l show ?thesis by (simp add: results_enumerated_def apply_limit_Nil)
  next
    case True
    obtain r' s2 where sd: "search_and_download env quote limit query s1 = (r', s2)"
      by (cases "search_and_download env quote limit query s1")
    from assms l True sd have r: "r = r'"
      by (auto simp: download_all_pdfs_def split: bool.splits prod.splits)
    have "results_enumerated env quote query s =
        (if fst (perform_search env quote query s1)
         then fst (get_search_results env (snd (perform_search env quote query s1))) else [])"
      using l True by (cases "perform_search env quote query s1") (simp add: results_enumerated_def)
    with search_and_download_files [OF sd] l r show ?thesis
      by (simp add: results_url_of_def loop_start_def)
  qed
qed

lemma stored_name_of_parts:
  "2 \<le> length (format_02d index) \<and>
   list_all is_digit (format_02d index) \<and>
   length (create_query_slug query) \<le> 50 \<and>
   list_all (\<lambda>c. is_alnum c \<or> c = CHR ''_'' \<or> c = CHR ''-'') (create_query_slug query) \<and>
   sanitize_filename (suggested_or_default index suggested) \<noteq> [] \<and>
   length (sanitize_filename (suggested_or_default index suggested)) \<le> 200"
  using final_filename_parts [of index query suggested] by simp

lemma stored_name_of_legal:
  "list_all (\<lambda>c. \<not> is_illegal c) (stored_name_of env result (create_query_slug query) s) \<and>
   length (stored_name_of env result (create_query_slug query) s)
     \<le> max 2 (length (decimal (result_index result))) + 253"
  using final_filename_parts [of "result_index result" query "suggested_of env result s"]
  by (simp add: stored_name_of_def final_filename_def)

lemma stored_names_members:
  "name \<in> set (stored_names env query_slug results_url results s) \<Longrightarrow>
   \<exists>result\<in>set results. \<exists>s0. name = stored_name_of env result query_slug s0"
  by (induction results arbitrary: s) (auto split: option.splits)

section \<open>Sample runs\<close>

lemma six: "(6::nat) = Suc (Suc (Suc (Suc (Suc (Suc 0)))))" by simp

lemmas auth_defs = ensure_authenticated_def six login_attempt_def handle_login_def
  await_has_login_forms_def await_is_authenticated_def visible_query_def count_query_def
  guarded_act_def browser_call_def under_deadline_def session_of_def delay_in_def
  is_authenticated_def sleep_def act_def log_event_def login_selectors_def fill_login_form_def
  username_selectors_def password_selectors_def submit_selectors_def is_visible_def context_of_def

lemmas page_defs = blank_page_def document_with_def results_page_def detail_page_def login_page_def
  framed_login_page_def popup_download_page_def start_def base_url_def one_deed_def two_deeds_def
  slow_check_page_def unstable_page_def slow_detail_page_def framed_download_page_def

lemmas run_defs = download_all_pdfs_def search_and_download_def perform_search_def get_search_results_def
  download_pdf_from_result_def reach_download_def capture_download_def recover_def apply_limit_def py_take_def
  final_filename_def create_query_slug_def sanitize_filename_def strip_def strip_quotes_def is_quote_def is_space_def
  is_alnum_def is_illegal_def format_02d_def suggested_or_default_def decimal.simps digit_char_def Let_def
  results_found_def results_enumerated_def results_url_of_def loop_start_def
  stored_name_of_def suggested_of_def after_item_def

lemma run_limit_zero:
  "fst (download_all_pdfs (signed_in_portal two_deeds []) id (Some 0) ''Sunset Ridge'' start)
   = Inr \<lparr>count = 2, files = [''01_Sunset_Ridge__deed.pdf'', ''02_Sunset_Ridge__deed.pdf'']\<rparr>"
  by (simp add: run_defs auth_defs page_defs signed_in_portal_def)

lemma found_two: "results_found (signed_in_portal two_deeds []) id ''Sunset Ridge'' start = 2"
  by (simp add: run_defs auth_defs page_defs signed_in_portal_def)

lemma run_stuck: "fst (download_all_pdfs stuck_browser id None ''Sunset Ridge'' start) = Inl PlaywrightError"
  by (simp add: run_defs auth_defs page_defs stuck_browser_def)

lemma run_offline:
  "(case download_all_pdfs offline_portal id None ''Sunset Ridge'' start of
      (r, s') \<Rightarrow> r = Inr \<lparr>count = 0, files = []\<rparr> \<and>
        trace s' = [Launch,
          Goto (base_url @ ''/results?department=RP&keywordSearch=false&recordedDateRange=18600626%2C20251023&searchOcrText=true&searchType=quickSearch&searchValue=Sunset Ridge''),
          Close])"
  by (simp add: run_defs auth_defs page_defs offline_portal_def)

lemma found_login: "results_found login_portal id ''Sunset Ridge'' start = 1"
  by (simp add: run_defs auth_defs page_defs login_portal_def)

lemma run_paid_first:
  "(case download_all_pdfs (signed_in_portal two_deeds [1]) id None ''Sunset Ridge'' start of
      (r, s') \<Rightarrow> r = Inr \<lparr>count = 0, files = []\<rparr> \<and>
        trace s' = [Launch,
          Goto (base_url @ ''/results?department=RP&keywordSearch=false&recordedDateRange=18600626%2C20251023&searchOcrText=true&searchType=quickSearch&searchValue=Sunset Ridge''),
          WaitForTimeout 3000, WaitForSelector,
          ClickRow 1, WaitForTimeout 3000, WaitForTimeout 1000,
          ClickRow 2, WaitForTimeout 1000,
          StorageState, Close])"
  by (simp add: run_defs auth_defs page_defs signed_in_portal_def)

lemma run_hyphen:
  "fst (download_all_pdfs (signed_in_portal one_deed []) id None ''Sunset-Ridge'' start)
   = Inr \<lparr>count = 1, files = [''01_Sunset-Ridge__deed.pdf'']\<rparr>"
  by (simp add: run_defs auth_defs page_defs signed_in_portal_def)

lemma hyphen_no_match: "\<not> spec_filename_pattern ''01_Sunset-Ridge__deed.pdf''"
  by (simp add: spec_filename_pattern_def is_digit_def is_word_def is_alnum_def
      separator_then_any_def eval_nat_numeral)

lemma underscore_match: "spec_filename_pattern ''01_Sunset_Ridge__deed.pdf''"
  by (simp add: spec_filename_pattern_def is_digit_def is_word_def is_alnum_def
      separator_then_any_def eval_nat_numeral)

lemma framed_login:
  "(case ensure_authenticated still 30000 \<lparr>page = framed_login_page, clock = 0, trace = []\<rparr> of
     (r, s') \<Rightarrow> r = Inr (False, False) \<and>
       trace s' =
         [Fill MainPage InputTypeEmail Username, Sleep 3000, Sleep 2000,
          Fill MainPage InputTypeEmail Username, Sleep 3000, Sleep 2000,
          Fill MainPage InputTypeEmail Username, Sleep 3000, Sleep 2000,
          Fill MainPage InputTypeEmail Username, Sleep 3000, Sleep 2000,
          Fill MainPage InputTypeEmail Username, Sleep 3000, Sleep 2000,
          Fill MainPage InputTypeEmail Username, Sleep 3000, Sleep 2000])"
  by (simp add: auth_defs page_defs still_def)

lemma framed_login_only_in_frame:
  "any_count (main_frame framed_login_page) login_selectors = Inr False \<and>
   count_of (hd (frames framed_login_page)) InputTypePassword = Some 1"
  by (simp add: auth_defs page_defs)

lemma idle_run:
  "ensure_authenticated still 30000 start =
     (Inr (False, False),
      \<lparr>page = blank_page, clock = 12000,
        trace = [Sleep 2000, Sleep 2000, Sleep 2000, Sleep 2000, Sleep 2000, Sleep 2000]\<rparr>)"
  by (simp add: auth_defs page_defs still_def)

lemma slow_check_run:
  "ensure_authenticated still 1000 \<lparr>page = slow_check_page, clock = 0, trace = []\<rparr> =
     (Inr (False, False),
      \<lparr>page = slow_check_page, clock = 20500,
        trace = [Sleep 2000, Sleep 2000, Sleep 2000, Sleep 2000, Sleep 2000, Sleep 2000]\<rparr>)"
  by (simp add: auth_defs page_defs still_def)

lemma slow_check_nothing_to_see:
  "\<not> is_authenticated slow_check_page \<and>
   any_count (main_frame slow_check_page) login_selectors = Inr False \<and>
   frames slow_check_page = []"
  by (simp add: auth_defs page_defs)

lemma unstable_run:
  "fst (ensure_authenticated still 30000 \<lparr>page = unstable_page, clock = 0, trace = []\<rparr>)
     = Inl PlaywrightError"
  by (simp add: auth_defs page_defs still_def)

lemma unstable_nothing_to_see:
  "\<not> is_authenticated unstable_page \<and> frames unstable_page = []"
  by (simp add: auth_defs page_defs)

lemma framed_download_run:
  "(case ensure_authenticated still 30000 \<lparr>page = framed_download_page, clock = 0, trace = []\<rparr> of
     (r, s') \<Rightarrow> r = Inr (False, False) \<and>
       trace s' =
         [Fill MainPage InputTypeEmail Username, Fill MainPage InputTypePassword Password,
          Click MainPage ButtonTypeSubmit, Sleep 3000, Sleep 2000,
          Fill MainPage InputTypeEmail Username, Fill MainPage InputTypePassword Password,
          Click MainPage ButtonTypeSubmit, Sleep 3000, Sleep 2000,
          Fill MainPage InputTypeEmail Username, Fill MainPage InputTypePassword Password,
          Click MainPage ButtonTypeSubmit, Sleep 3000, Sleep 2000,
          Fill MainPage InputTypeEmail Username, Fill MainPage InputTypePassword Password,
          Click MainPage ButtonTypeSubmit, Sleep 3000, Sleep 2000,
          Fill MainPage InputTypeEmail Username, Fill MainPage InputTypePassword Password,
          Click MainPage ButtonTypeSubmit, Sleep 3000, Sleep 2000,
          Fill MainPage InputTypeEmail Username, Fill MainPage InputTypePassword Password,
          Click MainPage ButtonTypeSubmit, Sleep 3000, Sleep 2000])"
  by (simp add: auth_defs page_defs still_def)

lemma framed_download_visible:
  "visible_of (main_frame framed_download_page) RoleDownload = None \<and>
   visible_of (hd (frames framed_download_page)) RoleDownload = Some True"
  by (simp add: page_defs)

lemma timeout_zero_run:
  "visible_of (main_frame (detail_page 1 True)) RoleDownload = Some True \<and>
   ensure_authenticated still 0 \<lparr>page = detail_page 1 True, clock = 0, trace = []\<rparr> =
     (Inr (False, False), \<lparr>page = detail_page 1 True, clock = 0, trace = []\<rparr>)"
  by (simp add: ensure_authenticated_def page_defs)

lemma slow_detail_check_time:
  "visible_of (main_frame slow_detail_page) RoleDownload = Some True \<and>
   check_time slow_detail_page = 1500"
  by (simp add: check_time_def page_defs)

lemma item_hyphen:
  "fst (download_pdf_from_result (signed_in_portal one_deed [])
          \<lparr>result_index = 1, result_text = ''Warranty deed, Sunset Ridge''\<rparr>
          ''Sunset-Ridge'' ''/results''
          \<lparr>page = results_page ''/results'' one_deed, clock = 0, trace = []\<rparr>)
     = Some ''01_Sunset-Ridge__deed.pdf''"
  by (simp add: run_defs auth_defs page_defs signed_in_portal_def)

section \<open>The claims\<close>

subsection \<open>C1: the context of a login\<close>

text \<open>
  C1 says that a login form found only in a nested context gets the credentials in that
  context and never in the primary document. \<open>_handle_login\<close> is documented to handle
  the login "in the correct context (main page, frame, or popup)", but its first test,
  \<open>_has_login_forms\<close>, also answers yes for a form in a frame, and then the main page is
  filled. On \<open>framed_login_page\<close> no login selector matches in the main document and the
  password input is in the frame; every attempt of \<open>ensure_authenticated\<close> types the
  user name into the e-mail input of the main document, nothing is ever filled or
  clicked in the frame, and the call ends with \<open>(False, False)\<close>.
\<close>

theorem login_fills_primary_document:
  "any_count (main_frame framed_login_page) login_selectors = Inr False \<and>
   count_of (hd (frames framed_login_page)) InputTypePassword = Some 1 \<and>
   fst (ensure_authenticated still 30000 \<lparr>page = framed_login_page, clock = 0, trace = []\<rparr>)
     = Inr (False, False) \<and>
   trace (snd (ensure_authenticated still 30000 \<lparr>page = framed_login_page, clock = 0, trace = []\<rparr>)) =
     [Fill MainPage InputTypeEmail Username, Sleep 3000, Sleep 2000,
      Fill MainPage InputTypeEmail Username, Sleep 3000, Sleep 2000,
      Fill MainPage InputTypeEmail Username, Sleep 3000, Sleep 2000,
      Fill MainPage InputTypeEmail Username, Sleep 3000, Sleep 2000,
      Fill MainPage InputTypeEmail Username, Sleep 3000, Sleep 2000,
      Fill MainPage InputTypeEmail Username, Sleep 3000, Sleep 2000]"
  using framed_login framed_login_only_in_frame by (simp split: prod.splits)

theorem login_fills_primary_document_witness:
  "hd (trace (snd (ensure_authenticated still 30000 \<lparr>page = framed_login_page, clock = 0, trace = []\<rparr>)))
     = Fill MainPage InputTypeEmail Username"
  using login_fills_primary_document by simp

subsection \<open>C2: the contexts that the authenticated check scans\<close>

text \<open>
  C2 as stated, that the check scans the popup windows too, fails: with the download
  button visible in a popup window only, \<open>_is_authenticated\<close> answers no.
\<close>

theorem popup_download_not_detected:
  "visible_of (hd (popups popup_download_page)) RoleDownload = Some True \<and>
   \<not> is_authenticated popup_download_page"
  by (simp add: is_authenticated_def page_defs)

text \<open>
  C2, amended: the check that \<open>_auth_loop\<close> makes at the start of each attempt and after
  each login scans the primary document and every other frame of the page. It answers
  yes exactly when the download button is visible in the primary document, or is not
  visible there and is visible in some frame; the popup windows are not looked at, so
  the answer does not depend on them.
\<close>

theorem is_authenticated_scope:
  "is_authenticated p =
     (visible_of (main_frame p) RoleDownload = Some True \<or>
      visible_of (main_frame p) RoleDownload = Some False \<and>
        (\<exists>frame\<in>set (frames p). visible_of frame RoleDownload = Some True))
   \<and> is_authenticated (p\<lparr>popups := windows\<rparr>) = is_authenticated p"
  by (auto simp: is_authenticated_def frames_authenticated_iff split: option.splits bool.splits)

theorem is_authenticated_scope_witness:
  "is_authenticated (popup_download_page\<lparr>popups := []\<rparr>) = is_authenticated popup_download_page"
  using is_authenticated_scope [of popup_download_page "[]"] by simp

subsection \<open>C3: the single timeout\<close>

text \<open>
  C3 says that one timeout governs the whole sequence and that a call in which neither
  the download button nor a login form is observed returns exactly \<open>(False, False)\<close>.
  The code sets one deadline, under the comment "Single timeout guard - try
  authentication until timeout", but \<open>asyncio.wait_for\<close> enforces it by one cancellation,
  and the browser queries of the loop sit in bare \<open>except:\<close> clauses, which catch it. On
  \<open>slow_check_page\<close> the visibility query for the download button takes 1.5 seconds.
  With a timeout of one second the cancellation lands in the first query and is
  swallowed there; the loop runs on with no deadline, and the call returns
  \<open>(False, False)\<close> only after 20.5 seconds, having waited six times for the full two
  seconds. The check of the main page in \<open>_has_login_forms\<close> is the one query outside
  every \<open>try\<close>, while the same check of a frame is inside one: on \<open>unstable_page\<close>, where
  \<open>count()\<close> raises on the main page, the call raises instead of returning
  \<open>(False, False)\<close>. On both pages there is neither a download button nor a login form.
\<close>

theorem swallowed_cancellation_outlives_timeout:
  "\<not> is_authenticated slow_check_page \<and>
   any_count (main_frame slow_check_page) login_selectors = Inr False \<and>
   frames slow_check_page = [] \<and>
   ensure_authenticated still 1000 \<lparr>page = slow_check_page, clock = 0, trace = []\<rparr> =
     (Inr (False, False),
      \<lparr>page = slow_check_page, clock = 20500,
        trace = [Sleep 2000, Sleep 2000, Sleep 2000, Sleep 2000, Sleep 2000, Sleep 2000]\<rparr>) \<and>
   \<not> is_authenticated unstable_page \<and>
   frames unstable_page = [] \<and>
   fst (ensure_authenticated still 30000 \<lparr>page = unstable_page, clock = 0, trace = []\<rparr>)
     = Inl PlaywrightError"
  using slow_check_nothing_to_see slow_check_run unstable_nothing_to_see unstable_run
  by simp

theorem swallowed_cancellation_outlives_timeout_witness:
  "clock (snd (ensure_authenticated still 1000 \<lparr>page = slow_check_page, clock = 0, trace = []\<rparr>))
     = 20500"
  using swallowed_cancellation_outlives_timeout by simp

subsection \<open>C4: recovery after a failed item\<close>

text \<open>
  C4 says that after every failed item the next page operation is a fresh load of the
  stored results URL. The code has that navigation in the exception handler of the
  item loop ("Try to navigate back to results page even if there was an error") and on
  the success path, but \<open>download_pdf_from_result\<close> catches every exception itself and
  returns \<open>None\<close>, so that a failed item is followed by the pause of one second and the
  click on the next row. In the run below the first of two results has no free
  download: no \<open>Goto\<close> follows the failure, the second row is clicked on the detail view
  of the first, and the second item fails too. The run itself is not aborted.
\<close>

theorem failed_item_without_recovery:
  "fst (download_all_pdfs (signed_in_portal two_deeds [1]) id None ''Sunset Ridge'' start)
     = Inr \<lparr>count = 0, files = []\<rparr> \<and>
   trace (snd (download_all_pdfs (signed_in_portal two_deeds [1]) id None ''Sunset Ridge'' start)) =
     [Launch,
      Goto (base_url @ ''/results?department=RP&keywordSearch=false&recordedDateRange=18600626%2C20251023&searchOcrText=true&searchType=quickSearch&searchValue=Sunset Ridge''),
      WaitForTimeout 3000, WaitForSelector,
      ClickRow 1, WaitForTimeout 3000, WaitForTimeout 1000,
      ClickRow 2, WaitForTimeout 1000,
      StorageState, Close]"
  using run_paid_first by (simp split: prod.splits)

theorem failed_item_without_recovery_witness:
  "take 3 (drop 5 (trace (snd (download_all_pdfs (signed_in_portal two_deeds [1]) id None
      ''Sunset Ridge'' start)))) = [WaitForTimeout 3000, WaitForTimeout 1000, ClickRow 2]"
  using failed_item_without_recovery by simp
subsection \<open>C5: no login when already authenticated\<close>

text \<open>
  C5 as stated, for every call in which the download button is visible in some scanned
  context at the first check, fails in two places. When the query of the primary
  document raises, \<open>_is_authenticated\<close> answers no whatever the frames show: on
  \<open>framed_download_page\<close> the button is visible in the frame, the login form of the main
  page is filled and submitted in each of the six attempts, and the call returns
  \<open>(False, False)\<close>. And with the timeout 0 the loop is cancelled before its first check:
  the call returns \<open>(False, False)\<close> on a page whose main document shows the button.
\<close>

theorem visible_button_not_accepted:
  "visible_of (main_frame framed_download_page) RoleDownload = None \<and>
   visible_of (hd (frames framed_download_page)) RoleDownload = Some True \<and>
   fst (ensure_authenticated still 30000 \<lparr>page = framed_download_page, clock = 0, trace = []\<rparr>)
     = Inr (False, False) \<and>
   trace (snd (ensure_authenticated still 30000 \<lparr>page = framed_download_page, clock = 0, trace = []\<rparr>)) =
     [Fill MainPage InputTypeEmail Username, Fill MainPage InputTypePassword Password,
      Click MainPage ButtonTypeSubmit, Sleep 3000, Sleep 2000,
      Fill MainPage InputTypeEmail Username, Fill MainPage InputTypePassword Password,
      Click MainPage ButtonTypeSubmit, Sleep 3000, Sleep 2000,
      Fill MainPage InputTypeEmail Username, Fill MainPage InputTypePassword Password,
      Click MainPage ButtonTypeSubmit, Sleep 3000, Sleep 2000,
      Fill MainPage InputTypeEmail Username, Fill MainPage InputTypePassword Password,
      Click MainPage ButtonTypeSubmit, Sleep 3000, Sleep 2000,
      Fill MainPage InputTypeEmail Username, Fill MainPage InputTypePassword Password,
      Click MainPage ButtonTypeSubmit, Sleep 3000, Sleep 2000,
      Fill MainPage InputTypeEmail Username, Fill MainPage InputTypePassword Password,
      Click MainPage ButtonTypeSubmit, Sleep 3000, Sleep 2000] \<and>
   visible_of (main_frame (detail_page 1 True)) RoleDownload = Some True \<and>
   ensure_authenticated still 0 \<lparr>page = detail_page 1 True, clock = 0, trace = []\<rparr> =
     (Inr (False, False), \<lparr>page = detail_page 1 True, clock = 0, trace = []\<rparr>)"
  using framed_download_visible framed_download_run timeout_zero_run
  by (simp split: prod.splits)

text \<open>
  C5, amended: when at the first check the download button is visible in the primary
  document, or the primary document answers that it is not visible and some frame shows
  it, and the queries of this check are answered before the timeout has passed (so the
  timeout is positive), the call returns \<open>(True, False)\<close> as soon as the check is
  answered. It leaves the page as it was and records no event: no fill, no click, no
  wait. The only change of the session is the time that the check has taken.
\<close>

theorem already_authenticated_no_login:
  assumes "visible_of (main_frame (page s)) RoleDownload = Some True \<or>
           visible_of (main_frame (page s)) RoleDownload = Some False \<and>
             (\<exists>frame\<in>set (frames (page s)). visible_of frame RoleDownload = Some True)"
    and "check_time (page s) < timeout"
  shows "ensure_authenticated env timeout s =
           (Inr (True, False), s\<lparr>clock := clock s + check_time (page s)\<rparr>)"
proof -
  from assms(1) have "is_authenticated (page s)" by (simp add: is_authenticated_iff)
  then show ?thesis using assms(2) by (rule ensure_authenticated_at_once)
qed

theorem already_authenticated_no_login_witness:
  "ensure_authenticated still 30000 \<lparr>page = slow_detail_page, clock = 0, trace = []\<rparr>
     = (Inr (True, False), \<lparr>page = slow_detail_page, clock = 1500, trace = []\<rparr>)"
  using already_authenticated_no_login
      [of "\<lparr>page = slow_detail_page, clock = 0, trace = []\<rparr>" 30000 still]
    slow_detail_check_time
  by simp

subsection \<open>C6: the result of a run\<close>

text \<open>
  C6 as stated fails in two places. With the limit 0 and two results, both are
  downloaded, so that the count is 2 and not within \<open>[0, min(0, 2)]\<close>. And the
  \<open>finally\<close> block closes the browser outside every handler: when \<open>browser.close()\<close>
  raises, the run raises.
\<close>

theorem limit_zero_exceeds_bound:
  "fst (download_all_pdfs (signed_in_portal two_deeds []) id (Some 0) ''Sunset Ridge'' start)
     = Inr \<lparr>count = 2, files = [''01_Sunset_Ridge__deed.pdf'', ''02_Sunset_Ridge__deed.pdf'']\<rparr> \<and>
   results_found (signed_in_portal two_deeds []) id ''Sunset Ridge'' start = 2 \<and>
   fst (download_all_pdfs stuck_browser id None ''Sunset Ridge'' start) = Inl PlaywrightError"
  using run_limit_zero found_two run_stuck by simp

text \<open>
  C6, amended: whenever closing the browser succeeds, \<open>download_all_pdfs\<close> returns a
  result, also when the browser does not start, the search fails or no item succeeds.
  In it the count is the number of files, both are at most the number of results found,
  and at most the limit when the limit is positive.
\<close>

theorem run_result_bounds:
  assumes "\<forall>p. fst (env Close p)"
  shows "\<exists>r. fst (download_all_pdfs env quote limit query s) = Inr r \<and>
      count r = length (files r) \<and>
      count r \<le> results_found env quote query s \<and>
      (\<forall>l. limit = Some l \<and> 0 < l \<longrightarrow> count r \<le> nat l)"
proof -
  obtain ok s1 where l: "act env Launch s = (ok, s1)" by (cases "act env Launch s")
  show ?thesis
  proof (cases ok)
    case False
    with l show ?thesis by (simp add: download_all_pdfs_def)
  next
    case True
    obtain r s2 where sd: "search_and_download env quote limit query s1 = (r, s2)"
      by (cases "search_and_download env quote limit query s1")
    have "fst (env Close (page s2))" using assms by simp
    then have "fst (act env Close s2)" by (cases "env Close (page s2)") (simp add: act_def)
    with l True sd have res: "fst (download_all_pdfs env quote limit query s) = Inr r"
      by (auto simp: download_all_pdfs_def split: prod.splits bool.splits)
    have rf: "results_found env quote query s =
      (if fst (perform_search env quote query s1)
        then length (fst (get_search_results env (snd (perform_search env quote query s1)))) else 0)"
      using l True by (auto simp: results_found_def split: prod.splits bool.splits)
    from search_and_download_count [OF sd] res show ?thesis unfolding rf by simp
  qed
qed

theorem run_result_bounds_witness:
  "\<exists>r. fst (download_all_pdfs (signed_in_portal two_deeds []) id (Some 1) ''Sunset Ridge'' start) = Inr r \<and>
      count r = length (files r) \<and> count r \<le> 2 \<and> count r \<le> 1"
proof -
  have "\<forall>p. fst (signed_in_portal two_deeds [] Close p)"
    by (simp add: signed_in_portal_def)
  with run_result_bounds [of "signed_in_portal two_deeds []" id "Some 1" "''Sunset Ridge''" start]
  show ?thesis by (simp add: found_two)
qed

subsection \<open>C7: when the session state is written\<close>

text \<open>
  C7 as stated, that the session state is written at the end of the run on every path,
  fails: when the search fails, the run returns at once and only closes the browser.
\<close>

theorem failed_search_writes_nothing:
  "fst (download_all_pdfs offline_portal id None ''Sunset Ridge'' start) = Inr \<lparr>count = 0, files = []\<rparr> \<and>
   trace (snd (download_all_pdfs offline_portal id None ''Sunset Ridge'' start)) =
     [Launch,
      Goto (base_url @ ''/results?department=RP&keywordSearch=false&recordedDateRange=18600626%2C20251023&searchOcrText=true&searchType=quickSearch&searchValue=Sunset Ridge''),
      Close] \<and>
   StorageState \<notin> set (trace (snd (download_all_pdfs offline_portal id None ''Sunset Ridge'' start)))"
  using run_offline by (simp split: prod.splits)

text \<open>
  C7, amended: a run that enumerates at least one result writes the session state right
  after each completed login (the write is the event that follows the login, before
  any navigation) and once more as its last action before the browser is closed, and
  nowhere else. A run in which the browser does not start, the search fails or no
  result is found writes nothing.
\<close>

theorem session_state_writes:
  "\<exists>tr. trace (snd (download_all_pdfs env quote limit query s)) = trace s @ tr \<and>
     (if results_found env quote query s = 0 then quiet tr
      else \<exists>tr0. tr = Launch # tr0 @ [StorageState, Close] \<and> saves_follow_logins tr0)"
proof -
  obtain ok s1 where l: "act env Launch s = (ok, s1)" by (cases "act env Launch s")
  then have t1: "trace s1 = trace s @ [Launch]" using act_trace [of env Launch s] by simp
  show ?thesis
  proof (cases ok)
    case False
    with l have "snd (download_all_pdfs env quote limit query s) = s1"
      and "results_found env quote query s = 0"
      by (simp_all add: download_all_pdfs_def results_found_def)
    with t1 show ?thesis by (simp add: quiet_single)
  next
    case True
    obtain r s2 where sd: "search_and_download env quote limit query s1 = (r, s2)"
      by (cases "search_and_download env quote limit query s1")
    let ?found = "fst (perform_search env quote query s1)
        \<and> fst (get_search_results env (snd (perform_search env quote query s1))) \<noteq> []"
    from search_and_download_trace [OF sd] obtain tr where
      tr: "trace s2 = trace s1 @ tr"
          "if ?found then \<exists>tr0. tr = tr0 @ [StorageState] \<and> saves_follow_logins tr0 else quiet tr"
      by blast
    have rf: "(results_found env quote query s = 0) = (\<not> ?found)"
      using l True by (auto simp: results_found_def split: prod.splits bool.splits)
    from l True sd have "trace (snd (download_all_pdfs env quote limit query s)) = trace s2 @ [Close]"
      using act_trace [of env Close s2]
      by (auto simp: download_all_pdfs_def split: prod.splits bool.splits)
    then have "trace (snd (download_all_pdfs env quote limit query s)) = trace s @ (Launch # tr @ [Close])"
      using tr(1) t1 by simp
    moreover have "if results_found env quote query s = 0 then quiet (Launch # tr @ [Close])
      else \<exists>tr0. Launch # tr @ [Close] = Launch # tr0 @ [StorageState, Close] \<and> saves_follow_logins tr0"
      using tr(2) unfolding rf by (auto simp: quiet_def)
    ultimately show ?thesis by blast
  qed
qed

theorem session_state_writes_witness:
  "\<exists>tr0. trace (snd (download_all_pdfs login_portal id None ''Sunset Ridge'' start))
       = Launch # tr0 @ [StorageState, Close] \<and> saves_follow_logins tr0"
proof -
  have "trace start = []" by (simp add: start_def)
  with session_state_writes [of login_portal id None "''Sunset Ridge''" start]
  show ?thesis by (simp add: found_login)
qed
subsection \<open>C8: stored filenames\<close>

text \<open>
  C8 as stated fails on the pattern: the slug keeps hyphens, which the character class
  of the pattern does not admit. The query \<open>Sunset-Ridge\<close> gives a stored filename that
  does not match.
\<close>

theorem hyphen_breaks_pattern:
  "fst (download_all_pdfs (signed_in_portal one_deed []) id None ''Sunset-Ridge'' start)
     = Inr \<lparr>count = 1, files = [''01_Sunset-Ridge__deed.pdf'']\<rparr> \<and>
   \<not> spec_filename_pattern ''01_Sunset-Ridge__deed.pdf''"
  using run_hyphen hyphen_no_match by simp

text \<open>
  C8, amended. The filename that the processing of an item returns is
  \<open>stored_name_of\<close>: the ordinal of this item in decimal, padded with zeros to at least
  two digits, an underscore, the slug, two underscores, and the sanitised suggested
  filename of the download of this item (\<open>document_{ordinal}.pdf\<close> when the download
  suggests none); the download is saved under this name. The files of a run are exactly
  these names for the enumerated results, up to the limit, whose processing returns a
  filename, in the order of the results. The ordinal has at least two digits; the slug
  of the query has at most fifty characters, all of them letters, digits, underscores
  or hyphens; the sanitised name is not empty and has at most two hundred characters;
  no character of a stored name is one that \<open>sanitize_filename\<close> treats as illegal in a
  filename; and a stored name has at most 253 characters besides the digits of the
  ordinal, 255 in all for ordinals below one hundred.
\<close>

theorem stored_filenames:
  "(download_pdf_from_result env result query_slug results_url s = (Some name, s') \<longrightarrow>
      name = stored_name_of env result query_slug s \<and>
      (\<exists>tr. trace s' = trace s @ tr @
               [DownloadClick, SaveAs name, Goto results_url, WaitForTimeout 2000])) \<and>
   (fst (download_all_pdfs env quote limit query s) = Inr r \<longrightarrow>
      files r =
        stored_names env (create_query_slug query) (results_url_of env quote query s)
          (apply_limit limit (results_enumerated env quote query s))
          (loop_start env quote query s)) \<and>
   (\<forall>stored\<in>set (stored_names env query_slug results_url results s).
      \<exists>item\<in>set results. \<exists>s0. stored = stored_name_of env item query_slug s0) \<and>
   2 \<le> length (format_02d index) \<and>
   list_all is_digit (format_02d index) \<and>
   length (create_query_slug query) \<le> 50 \<and>
   list_all (\<lambda>c. is_alnum c \<or> c = CHR ''_'' \<or> c = CHR ''-'') (create_query_slug query) \<and>
   sanitize_filename (suggested_or_default index suggested) \<noteq> [] \<and>
   length (sanitize_filename (suggested_or_default index suggested)) \<le> 200 \<and>
   list_all (\<lambda>c. \<not> is_illegal c) (stored_name_of env result (create_query_slug query) s) \<and>
   length (stored_name_of env result (create_query_slug query) s)
     \<le> max 2 (length (decimal (result_index result))) + 253"
proof -
  have "download_pdf_from_result env result query_slug results_url s = (Some name, s') \<longrightarrow>
      name = stored_name_of env result query_slug s \<and>
      (\<exists>tr. trace s' = trace s @ tr @
               [DownloadClick, SaveAs name, Goto results_url, WaitForTimeout 2000])"
    using download_pdf_from_result_name [of env result query_slug results_url s name s'] by simp
  moreover have "fst (download_all_pdfs env quote limit query s) = Inr r \<longrightarrow>
      files r =
        stored_names env (create_query_slug query) (results_url_of env quote query s)
          (apply_limit limit (results_enumerated env quote query s))
          (loop_start env quote query s)"
    using download_all_pdfs_files [of env quote limit query s r] by simp
  moreover have "\<forall>stored\<in>set (stored_names env query_slug results_url results s).
      \<exists>item\<in>set results. \<exists>s0. stored = stored_name_of env item query_slug s0"
    using stored_names_members [of _ env query_slug results_url results s] by simp
  ultimately show ?thesis
    using stored_name_of_parts [of index query suggested]
      stored_name_of_legal [of env result query s]
    by simp
qed

theorem stored_filenames_witness:
  "stored_names (signed_in_portal one_deed []) (create_query_slug ''Sunset-Ridge'')
     (results_url_of (signed_in_portal one_deed []) id ''Sunset-Ridge'' start)
     (apply_limit None (results_enumerated (signed_in_portal one_deed []) id ''Sunset-Ridge'' start))
     (loop_start (signed_in_portal one_deed []) id ''Sunset-Ridge'' start)
   = [''01_Sunset-Ridge__deed.pdf''] \<and>
   stored_name_of (signed_in_portal one_deed [])
     \<lparr>result_index = 1, result_text = ''Warranty deed, Sunset Ridge''\<rparr> ''Sunset-Ridge''
     \<lparr>page = results_page ''/results'' one_deed, clock = 0, trace = []\<rparr>
   = ''01_Sunset-Ridge__deed.pdf''"
proof -
  let ?env = "signed_in_portal one_deed []"
  let ?item = "\<lparr>result_index = 1, result_text = ''Warranty deed, Sunset Ridge''\<rparr>"
  let ?s = "\<lparr>page = results_page ''/results'' one_deed, clock = 0, trace = []\<rparr>"
  have "download_pdf_from_result ?env ?item ''Sunset-Ridge'' ''/results'' ?s =
      (Some ''01_Sunset-Ridge__deed.pdf'',
       snd (download_pdf_from_result ?env ?item ''Sunset-Ridge'' ''/results'' ?s))"
    using item_hyphen by (simp add: prod_eq_iff)
  with stored_filenames
      [where env = ?env and result = ?item and query_slug = "''Sunset-Ridge''"
         and results_url = "''/results''" and s = ?s and name = "''01_Sunset-Ridge__deed.pdf''"
         and s' = "snd (download_pdf_from_result ?env ?item ''Sunset-Ridge'' ''/results'' ?s)"]
  have "stored_name_of ?env ?item ''Sunset-Ridge'' ?s = ''01_Sunset-Ridge__deed.pdf''"
    by simp
  moreover from stored_filenames
      [where env = ?env and quote = id and limit = None
         and query = "''Sunset-Ridge''" and s = start
         and r = "\<lparr>count = 1, files = [''01_Sunset-Ridge__deed.pdf'']\<rparr>"]
    run_hyphen
  have "stored_names ?env (create_query_slug ''Sunset-Ridge'')
     (results_url_of ?env id ''Sunset-Ridge'' start)
     (apply_limit None (results_enumerated ?env id ''Sunset-Ridge'' start))
     (loop_start ?env id ''Sunset-Ridge'' start)
   = [''01_Sunset-Ridge__deed.pdf'']"
    by simp
  ultimately show ?thesis by simp
qed

subsection \<open>C9: sanitising twice\<close>

text \<open>
  C9 as stated fails for the slug: the underscore that replaces whitespace is not in the
  class of characters that \<open>create_query_slug\<close> keeps, so a second application removes
  it.
\<close>

theorem slug_not_idempotent:
  "create_query_slug ''Sunset Ridge'' = ''Sunset_Ridge'' \<and>
   create_query_slug (create_query_slug ''Sunset Ridge'') = ''SunsetRidge''"
  by (simp add: create_query_slug_def strip_def is_alnum_def is_space_def Let_def)

text \<open>
  C9, amended: \<open>sanitize_filename\<close> is a fixed point on its own outputs. A second
  application of \<open>create_query_slug\<close> deletes the underscores of the slug and changes
  nothing else, so a slug is a fixed point exactly when it has no underscore.
\<close>

theorem sanitizers_twice:
  "sanitize_filename (sanitize_filename s) = sanitize_filename s \<and>
   create_query_slug (create_query_slug q) = filter (\<lambda>c. c \<noteq> CHR ''_'') (create_query_slug q)"
  using sanitize_filename_idem create_query_slug_twice by simp

theorem sanitizers_twice_witness:
  "sanitize_filename (sanitize_filename ''a:b'') = sanitize_filename ''a:b'' \<and>
   create_query_slug (create_query_slug ''Sunset Ridge'')
     = filter (\<lambda>c. c \<noteq> CHR ''_'') (create_query_slug ''Sunset Ridge'')"
  using sanitizers_twice [of "''a:b''" "''Sunset Ridge''"] by simp

subsection \<open>C10: the limit 0\<close>

text \<open>
  C10: a downloader constructed with the limit 0 behaves as one constructed with no
  limit. The truncation is skipped, every enumerated result is processed, and the whole
  run is the same.
\<close>

theorem limit_zero_is_no_limit:
  "download_all_pdfs env quote (Some 0) query s = download_all_pdfs env quote None query s \<and>
   apply_limit (Some 0) results = results"
proof -
  have a: "\<And>xs :: result list. apply_limit (Some 0) xs = apply_limit None xs"
    by (simp add: apply_limit_def)
  have "search_and_download env quote (Some 0) query = search_and_download env quote None query"
    unfolding search_and_download_def a ..
  then have "download_all_pdfs env quote (Some 0) query s = download_all_pdfs env quote None query s"
    unfolding download_all_pdfs_def by (rule arg_cong)
  then show ?thesis by (simp add: apply_limit_def)
qed

theorem limit_zero_is_no_limit_witness:
  "fst (download_all_pdfs (signed_in_portal two_deeds []) id None ''Sunset Ridge'' start)
     = Inr \<lparr>count = 2, files = [''01_Sunset_Ridge__deed.pdf'', ''02_Sunset_Ridge__deed.pdf'']\<rparr>"
proof -
  have same: "download_all_pdfs (signed_in_portal two_deeds []) id (Some 0) ''Sunset Ridge'' start
      = download_all_pdfs (signed_in_portal two_deeds []) id None ''Sunset Ridge'' start"
    by (rule limit_zero_is_no_limit [THEN conjunct1])
  show ?thesis using run_limit_zero unfolding same .
qed

end
